theory Spec2Isabelle
  imports Main
begin

section \<open>The inverted-index search engine of search.py\<close>

text \<open>
  The development embeds \<^verbatim>\<open>BOWInvertedIndexEngine\<close> and
  \<^verbatim>\<open>BOWInvertedIndexEngineWithCache\<close> of \<^verbatim>\<open>src/search.py\<close>.

  Python exceptions are values of the type \<open>error\<close>; a function that may raise returns
  \<open>error + 'a\<close>, and the \<^verbatim>\<open>while True\<close> loop returns an \<open>option\<close>, where \<open>None\<close>
  stands for a loop that never returns.
\<close>

datatype error = KeyError | IndexError | ValueError

subsection \<open>Texts\<close>

text \<open>
  A Python \<^verbatim>\<open>str\<close> is a sequence of code points. The model covers the code points
  below 256, one \<^typ>\<open>char\<close> each, and two more: U+0130, the capital I with a dot above,
  and U+0307, the combining dot above. \<^verbatim>\<open>str.lower\<close> turns U+0130 into an \<open>i\<close> followed
  by U+0307, so the lower-case form of a text can be longer than the text, and these
  code points are closed under it. U+0130 is a word character whose lower-case form
  holds a character, U+0307, that is not one.
\<close>

datatype codepoint = Latin char | Capital_I_dot | Combining_dot

type_synonym pystr = "codepoint list"

text \<open>A text of code points below 256, written as a string literal.\<close>

definition latin :: "string \<Rightarrow> pystr" where
  "latin s = map Latin s"

definition space :: codepoint where
  "space = Latin (CHR '' '')"

subsection \<open>Tokenizer: \<^verbatim>\<open>parse_text_to_word\<close> (lines 122-133)\<close>

text \<open>
  \<^verbatim>\<open>str.isalnum\<close> on the code points below 256: the ASCII digits and letters, the
  letters of the Latin-1 block (feminine and masculine ordinal, micro sign, 192-214, 216-246,
  248-255) and its numeric characters (superscripts 1-3 and the three vulgar fractions).
\<close>

definition is_alnum_latin :: "char \<Rightarrow> bool" where
  "is_alnum_latin c = (let n = (of_char c :: nat) in
     (48 \<le> n \<and> n \<le> 57) \<or> (65 \<le> n \<and> n \<le> 90) \<or> (97 \<le> n \<and> n \<le> 122) \<or>
     n = 170 \<or> n = 178 \<or> n = 179 \<or> n = 181 \<or> n = 185 \<or> n = 186 \<or>
     (188 \<le> n \<and> n \<le> 190) \<or> (192 \<le> n \<and> n \<le> 214) \<or> (216 \<le> n \<and> n \<le> 246) \<or>
     (248 \<le> n \<and> n \<le> 255))"

text \<open>\<^verbatim>\<open>str.isalnum\<close>: U+0130 is a letter, U+0307 is a combining mark and not
  alphanumeric.\<close>

fun is_alnum :: "codepoint \<Rightarrow> bool" where
  "is_alnum (Latin c) = is_alnum_latin c"
| "is_alnum Capital_I_dot = True"
| "is_alnum Combining_dot = False"

text \<open>The class \<^verbatim>\<open>\w\<close> of the module \<^verbatim>\<open>re\<close>: an alphanumeric character or
  the underscore.\<close>

definition is_word :: "codepoint \<Rightarrow> bool" where
  "is_word c = (is_alnum c \<or> c = Latin (CHR ''_''))"

text \<open>\<^verbatim>\<open>re.sub(r'[^\w ]', ' ', text)\<close>: every character that is neither a word
  character nor the space becomes one space.\<close>

definition re_sub :: "pystr \<Rightarrow> pystr" where
  "re_sub text = map (\<lambda>c. if is_word c \<or> c = space then c else space) text"

text \<open>\<^verbatim>\<open>str.lower\<close> on the code points below 256: the upper-case letters are
  65-90, 192-214 and 216-222, each 32 below its lower-case letter.\<close>

definition lower_latin :: "char \<Rightarrow> char" where
  "lower_latin c = (let n = (of_char c :: nat) in
     if (65 \<le> n \<and> n \<le> 90) \<or> (192 \<le> n \<and> n \<le> 214) \<or> (216 \<le> n \<and> n \<le> 222)
     then char_of (n + 32) else c)"

text \<open>The lower-case form of one code point: U+0130 gives two code points, \<open>i\<close> and
  U+0307, and U+0307 is left alone.\<close>

fun lower_char :: "codepoint \<Rightarrow> pystr" where
  "lower_char (Latin c) = [Latin (lower_latin c)]"
| "lower_char Capital_I_dot = [Latin (CHR ''i''), Combining_dot]"
| "lower_char Combining_dot = [Combining_dot]"

text \<open>\<^verbatim>\<open>text.lower()\<close>: the lower-case forms of the code points, one after the
  other.\<close>

definition lower :: "pystr \<Rightarrow> pystr" where
  "lower text = concat (map lower_char text)"

text \<open>\<^verbatim>\<open>text.split(' ')\<close>: the pieces between the spaces, empty pieces included;
  the empty text gives one empty piece.\<close>

fun split_space :: "pystr \<Rightarrow> pystr list" where
  "split_space [] = [[]]"
| "split_space (c # cs) =
     (if c = space then [] # split_space cs
      else (case split_space cs of [] \<Rightarrow> [[c]] | w # ws \<Rightarrow> (c # w) # ws))"

text \<open>Lines 125-131: substitute, lower, split, and \<^verbatim>\<open>filter(None, word_list)\<close>,
  which drops the empty words.\<close>

definition word_list :: "pystr \<Rightarrow> pystr list" where
  "word_list text = filter (\<lambda>w. w \<noteq> []) (split_space (lower (re_sub text)))"

definition parse_text_to_word :: "pystr \<Rightarrow> pystr set" where
  "parse_text_to_word text = set (word_list text)"

subsection \<open>Iterating a set\<close>

text \<open>
  Python iterates a \<^verbatim>\<open>set\<close> in an order fixed by the hashes of its elements, which
  the program does not control. The engine takes this order as a parameter \<open>order\<close>,
  turning a set into the sequence in which \<^verbatim>\<open>for word in words\<close> and
  \<^verbatim>\<open>list(words)\<close> visit it. \<open>iterates order S\<close> says that the sequence visits every
  element of \<open>S\<close> once.
\<close>

type_synonym set_order = "pystr set \<Rightarrow> pystr list"

definition iterates :: "set_order \<Rightarrow> pystr set \<Rightarrow> bool" where
  "iterates order S = (distinct (order S) \<and> set (order S) = S)"

text \<open>An order that follows a fixed ranking \<open>V\<close> of the vocabulary.\<close>

definition ranked :: "pystr list \<Rightarrow> set_order" where
  "ranked V S = filter (\<lambda>w. w \<in> S) V"

subsection \<open>Index builder: \<^verbatim>\<open>process_corpus\<close> (lines 80-85)\<close>

type_synonym 'a index = "pystr \<rightharpoonup> 'a list"

text \<open>The body of the loop: create the postings list of a new word, then append
  the identifier.\<close>

definition add_posting :: "'a \<Rightarrow> pystr \<Rightarrow> 'a index \<Rightarrow> 'a index" where
  "add_posting doc word idx =
     (case idx word of
        None \<Rightarrow> idx(word \<mapsto> [] @ [doc])
      | Some ids \<Rightarrow> idx(word \<mapsto> ids @ [doc]))"

definition process_corpus :: "set_order \<Rightarrow> 'a \<Rightarrow> pystr \<Rightarrow> 'a index \<Rightarrow> 'a index" where
  "process_corpus order doc text idx =
     fold (add_posting doc) (order (parse_text_to_word text)) idx"

text \<open>The index after a sequence of \<^verbatim>\<open>process_corpus\<close> calls on a new engine.\<close>

definition build :: "set_order \<Rightarrow> ('a \<times> pystr) list \<Rightarrow> 'a index" where
  "build order docs = fold (\<lambda>(doc, text). process_corpus order doc text) docs Map.empty"

subsection \<open>Intersection: \<^verbatim>\<open>search\<close> (lines 87-120)\<close>

text \<open>
  Lines 101-109, the inner loop over the query words and their cursors: \<open>Inr None\<close> when a
  cursor has passed the end of its postings list (\<^verbatim>\<open>return result\<close>), otherwise the
  identifiers under the cursors.
\<close>

fun current_ids :: "'a index \<Rightarrow> pystr list \<Rightarrow> nat list \<Rightarrow> error + 'a list option" where
  "current_ids idx [] cs = Inr (Some [])"
| "current_ids idx (w # ws) [] = Inl IndexError"
| "current_ids idx (w # ws) (c # cs) =
     (case idx w of
        None \<Rightarrow> Inl KeyError
      | Some l \<Rightarrow>
          if c \<ge> length l then Inr None
          else (case current_ids idx ws cs of
                  Inr (Some ids) \<Rightarrow> Inr (Some (l ! c # ids))
                | r \<Rightarrow> r))"

text \<open>\<^verbatim>\<open>all(x == current_ids[0] for x in current_ids)\<close>; on the empty list the
  generator yields nothing and the element 0 is never read.\<close>

definition all_same :: "'a list \<Rightarrow> bool" where
  "all_same ids = list_all (\<lambda>x. x = ids ! 0) ids"

text \<open>\<^verbatim>\<open>min(current_ids)\<close> and \<^verbatim>\<open>current_ids.index(min_val)\<close>, the first
  position of a value.\<close>

fun min_py :: "'a::linorder list \<Rightarrow> error + 'a" where
  "min_py [] = Inl ValueError"
| "min_py (x # xs) = Inr (fold min xs x)"

fun index_py :: "'a list \<Rightarrow> 'a \<Rightarrow> error + nat" where
  "index_py [] v = Inl ValueError"
| "index_py (x # xs) v =
     (if x = v then Inr 0
      else (case index_py xs v of Inl e \<Rightarrow> Inl e | Inr p \<Rightarrow> Inr (Suc p)))"

text \<open>One pass through the body of \<^verbatim>\<open>while True\<close> (lines 100-120).\<close>

datatype 'a step = Return "'a list" | Raise error | Continue "nat list" "'a list"

definition iteration :: "'a::linorder index \<Rightarrow> pystr list \<Rightarrow> nat list \<Rightarrow> 'a list \<Rightarrow> 'a step" where
  "iteration idx query_words cs result =
     (case current_ids idx query_words cs of
        Inl e \<Rightarrow> Raise e
      | Inr None \<Rightarrow> Return result
      | Inr (Some ids) \<Rightarrow>
          if all_same ids then
            (case ids of
               [] \<Rightarrow> Raise IndexError
             | i # _ \<Rightarrow> Continue (map Suc cs) (result @ [i]))
          else
            (case min_py ids of
               Inl e \<Rightarrow> Raise e
             | Inr min_val \<Rightarrow>
                 (case index_py ids min_val of
                    Inl e \<Rightarrow> Raise e
                  | Inr min_val_pos \<Rightarrow>
                      if min_val_pos < length cs
                      then Continue (cs[min_val_pos := cs ! min_val_pos + 1]) result
                      else Raise IndexError)))"

partial_function (option) search_loop ::
  "'a::linorder index \<Rightarrow> pystr list \<Rightarrow> nat list \<Rightarrow> 'a list \<Rightarrow> (error + 'a list) option" where
  "search_loop idx query_words cs result =
     (case iteration idx query_words cs result of
        Return r \<Rightarrow> Some (Inr r)
      | Raise e \<Rightarrow> Some (Inl e)
      | Continue cs' result' \<Rightarrow> search_loop idx query_words cs' result')"

text \<open>Lines 89-120 on the list of query words: the cursors start at 0, a word missing from
  the index returns the empty list at once, and the loop runs otherwise.\<close>

definition search_words :: "'a::linorder index \<Rightarrow> pystr list \<Rightarrow> (error + 'a list) option" where
  "search_words idx query_words =
     (let query_words_index = map (\<lambda>_. 0) query_words in
      if list_ex (\<lambda>query_word. idx query_word = None) query_words then Some (Inr [])
      else search_loop idx query_words query_words_index [])"

definition search :: "set_order \<Rightarrow> 'a::linorder index \<Rightarrow> pystr \<Rightarrow> (error + 'a list) option" where
  "search order idx query = search_words idx (order (parse_text_to_word query))"


subsection \<open>The cache: \<^verbatim>\<open>LRUCache\<close> (lines 136-147)\<close>

text \<open>
  Modelled from the spec: \<^verbatim>\<open>pylru.lrucache\<close>, the imported cache class, whose code is
  not under \<^verbatim>\<open>src/\<close>. The specification describes it as a fixed-capacity cache
  that marks an entry most-recently-used on every hit and evicts the least-recently-used
  entry when a new key arrives at capacity. The model keeps the entries in a list, most
  recently used first: \<open>lru_contains\<close> is \<^verbatim>\<open>key in cache\<close> and leaves the order alone,
  \<open>lru_getitem\<close> is \<^verbatim>\<open>cache[key]\<close>, raising KeyError on a missing key and moving a
  found one to the front, and \<open>lru_setitem\<close> is \<^verbatim>\<open>cache[key] = value\<close>, which
  replaces and moves a present key and otherwise puts the new entry in front, dropping
  the last entry when the list would exceed the capacity. The cache holds the values it
  is given: in Python that is the object passed to it, not a copy.
\<close>

text \<open>Modelled from the spec: the state of a \<^verbatim>\<open>pylru.lrucache\<close>, its capacity and its
  entries, most recently used first.\<close>

record ('k, 'v) lrucache =
  capacity :: nat
  entries :: "('k \<times> 'v) list"

text \<open>Modelled from the spec: \<^verbatim>\<open>pylru.lrucache(size)\<close>, an empty cache whose capacity is
  fixed at construction.\<close>

definition lru_new :: "nat \<Rightarrow> ('k, 'v) lrucache" where
  "lru_new n = \<lparr>capacity = n, entries = []\<rparr>"

text \<open>Modelled from the spec: \<^verbatim>\<open>key in cache\<close> of \<^verbatim>\<open>pylru.lrucache\<close>, the lookup that
  does not count as a use.\<close>

definition lru_contains :: "('k, 'v) lrucache \<Rightarrow> 'k \<Rightarrow> bool" where
  "lru_contains c key = (map_of (entries c) key \<noteq> None)"

text \<open>Modelled from the spec: \<^verbatim>\<open>cache[key]\<close> of \<^verbatim>\<open>pylru.lrucache\<close>; a hit marks the
  entry most-recently-used.\<close>

definition lru_getitem :: "('k, 'v) lrucache \<Rightarrow> 'k \<Rightarrow> error + ('v \<times> ('k, 'v) lrucache)" where
  "lru_getitem c key =
     (case map_of (entries c) key of
        None \<Rightarrow> Inl KeyError
      | Some v \<Rightarrow> Inr (v, c\<lparr>entries := (key, v) # filter (\<lambda>e. fst e \<noteq> key) (entries c)\<rparr>))"

text \<open>Modelled from the spec: \<^verbatim>\<open>cache[key] = value\<close> of \<^verbatim>\<open>pylru.lrucache\<close>; a new
  key at capacity evicts the least-recently-used entry.\<close>

definition lru_setitem :: "('k, 'v) lrucache \<Rightarrow> 'k \<Rightarrow> 'v \<Rightarrow> ('k, 'v) lrucache" where
  "lru_setitem c key v =
     (if lru_contains c key
      then c\<lparr>entries := (key, v) # filter (\<lambda>e. fst e \<noteq> key) (entries c)\<rparr>
      else c\<lparr>entries := take (capacity c) ((key, v) # entries c)\<rparr>)"

text \<open>
  The methods of \<^verbatim>\<open>LRUCache\<close> hand over to the cache object. A result list is a Python
  object that the cache and the caller share, so the cache holds a reference to it: an
  address in the store of list objects of the engine.
\<close>

type_synonym ref = nat

type_synonym result_cache = "(pystr, ref) lrucache"

definition has :: "result_cache \<Rightarrow> pystr \<Rightarrow> bool" where
  "has c key = lru_contains c key"

definition get :: "result_cache \<Rightarrow> pystr \<Rightarrow> error + (ref \<times> result_cache)" where
  "get c key = lru_getitem c key"

definition set_cache :: "result_cache \<Rightarrow> pystr \<Rightarrow> ref \<Rightarrow> result_cache" where
  "set_cache c key v = lru_setitem c key v"

subsection \<open>The cached engine: \<^verbatim>\<open>BOWInvertedIndexEngineWithCache\<close> (lines 150-163)\<close>

text \<open>
  The state of the engine: the index, the cache, and the store of the result lists that
  \<^verbatim>\<open>search\<close> has created, where the address of a list is its position. A caller that
  holds the reference \<open>r\<close> reads the list \<open>store e ! r\<close> and can mutate it in place.
\<close>

record 'a engine =
  inverted_index :: "'a index"
  cache :: result_cache
  store :: "'a list list"

text \<open>\<^verbatim>\<open>__init__\<close> followed by the \<^verbatim>\<open>process_corpus\<close> calls that built \<open>idx\<close>: the
  cache has the default size 2 and is empty.\<close>

definition engine_with_cache :: "'a index \<Rightarrow> 'a engine" where
  "engine_with_cache idx = \<lparr>inverted_index = idx, cache = lru_new 2, store = []\<rparr>"

text \<open>
  Lines 155-163. On a hit the engine prints \<^verbatim>\<open>cache hit!\<close>, which the model leaves
  out, and returns the cached reference. On a miss the search of the parent class runs;
  an exception leaves the engine as it was, and a result is a new list object, stored in
  the cache under the raw query and returned.
\<close>

definition search_cached ::
  "set_order \<Rightarrow> 'a::linorder engine \<Rightarrow> pystr \<Rightarrow> ((error + ref) \<times> 'a engine) option" where
  "search_cached order e query =
     (if has (cache e) query then
        (case get (cache e) query of
           Inl err \<Rightarrow> Some (Inl err, e)
         | Inr (r, c) \<Rightarrow> Some (Inr r, e\<lparr>cache := c\<rparr>))
      else
        (case search order (inverted_index e) query of
           None \<Rightarrow> None
         | Some (Inl err) \<Rightarrow> Some (Inl err, e)
         | Some (Inr result) \<Rightarrow>
             (let r = length (store e)
              in Some (Inr r, e\<lparr>cache := set_cache (cache e) query r,
                                 store := store e @ [result]\<rparr>))))"

text \<open>What the caller sees of an outcome: the exception, or the list behind the
  reference.\<close>

definition seen :: "'a engine \<Rightarrow> error + ref \<Rightarrow> error + 'a list" where
  "seen e out = (case out of Inl err \<Rightarrow> Inl err | Inr r \<Rightarrow> Inr (store e ! r))"

text \<open>A sequence of queries on the cached and on the plain engine, each outcome read as
  soon as its search returns.\<close>

fun run_cached ::
  "set_order \<Rightarrow> 'a::linorder engine \<Rightarrow> pystr list \<Rightarrow> (error + 'a list) list option" where
  "run_cached order e [] = Some []"
| "run_cached order e (q # qs) =
     (case search_cached order e q of
        None \<Rightarrow> None
      | Some (out, e') \<Rightarrow>
          (case run_cached order e' qs of
             None \<Rightarrow> None
           | Some outs \<Rightarrow> Some (seen e' out # outs)))"

fun run_plain ::
  "set_order \<Rightarrow> 'a::linorder index \<Rightarrow> pystr list \<Rightarrow> (error + 'a list) list option" where
  "run_plain order idx [] = Some []"
| "run_plain order idx (q # qs) =
     (case search order idx q of
        None \<Rightarrow> None
      | Some out \<Rightarrow>
          (case run_plain order idx qs of
             None \<Rightarrow> None
           | Some outs \<Rightarrow> Some (out # outs)))"

text \<open>The engine after a sequence of queries, when all of them return.\<close>

fun after_queries :: "set_order \<Rightarrow> 'a::linorder engine \<Rightarrow> pystr list \<Rightarrow> 'a engine option" where
  "after_queries order e [] = Some e"
| "after_queries order e (q # qs) =
     (case search_cached order e q of
        None \<Rightarrow> None
      | Some (out, e') \<Rightarrow> after_queries order e' qs)"

text \<open>The caller mutates the list object behind \<open>r\<close> in place, leaving \<open>xs\<close> there.\<close>

definition mutate :: "'a engine \<Rightarrow> ref \<Rightarrow> 'a list \<Rightarrow> 'a engine" where
  "mutate e r xs = e\<lparr>store := (store e)[r := xs]\<rparr>"

text \<open>Search, overwrite the returned list with \<open>xs\<close>, and search again: what the caller
  sees after the first and after the second search.\<close>

definition search_mutate_search ::
  "set_order \<Rightarrow> 'a::linorder engine \<Rightarrow> pystr \<Rightarrow> 'a list \<Rightarrow>
   ((error + 'a list) \<times> (error + 'a list)) option" where
  "search_mutate_search order e query xs =
     (case search_cached order e query of
        None \<Rightarrow> None
      | Some (Inl err, e1) \<Rightarrow> Some (Inl err, Inl err)
      | Some (Inr r, e1) \<Rightarrow>
          (case search_cached order (mutate e1 r xs) query of
             None \<Rightarrow> None
           | Some (out, e2) \<Rightarrow> Some (seen e1 (Inr r), seen e2 out)))"

subsection \<open>The tokenizer as the specification words it\<close>

text \<open>
  The specification's tokenizer, for comparison with \<open>parse_text_to_word\<close>: replace every
  character that is not alphanumeric or whitespace with a single space, case-fold, split
  on whitespace, drop the empty tokens, return the set. \<open>is_space\<close> is
  \<^verbatim>\<open>str.isspace\<close>, which holds of neither U+0130 nor U+0307. The parameter \<open>keep\<close> is the
  class of characters that survive the replacement.
\<close>

definition is_space_latin :: "char \<Rightarrow> bool" where
  "is_space_latin c = (let n = (of_char c :: nat) in
     (9 \<le> n \<and> n \<le> 13) \<or> (28 \<le> n \<and> n \<le> 32) \<or> n = 133 \<or> n = 160)"

fun is_space :: "codepoint \<Rightarrow> bool" where
  "is_space (Latin c) = is_space_latin c"
| "is_space Capital_I_dot = False"
| "is_space Combining_dot = False"

fun split_on :: "(codepoint \<Rightarrow> bool) \<Rightarrow> pystr \<Rightarrow> pystr list" where
  "split_on P [] = [[]]"
| "split_on P (c # cs) =
     (if P c then [] # split_on P cs
      else (case split_on P cs of [] \<Rightarrow> [[c]] | w # ws \<Rightarrow> (c # w) # ws))"

definition tokenize_keeping :: "(codepoint \<Rightarrow> bool) \<Rightarrow> pystr \<Rightarrow> pystr set" where
  "tokenize_keeping keep text =
     set (filter (\<lambda>w. w \<noteq> [])
       (split_on is_space
         (lower (map (\<lambda>c. if keep c \<or> is_space c then c else space) text))))"

definition spec_tokenize :: "pystr \<Rightarrow> pystr set" where
  "spec_tokenize text = tokenize_keeping is_alnum text"

subsection \<open>Notions used in the statements and proofs\<close>

text \<open>A term: a non-empty text of word characters that lowering leaves alone.\<close>

definition is_term :: "pystr \<Rightarrow> bool" where
  "is_term w = (w \<noteq> [] \<and> list_all (\<lambda>c. is_word c \<and> lower_char c = [c]) w)"

text \<open>The identifiers of the documents of \<open>docs\<close> that contain the word \<open>w\<close>, in the order
  of the documents.\<close>

definition postings :: "('a \<times> pystr) list \<Rightarrow> pystr \<Rightarrow> 'a list" where
  "postings docs w = map fst (filter (\<lambda>(doc, text). w \<in> parse_text_to_word text) docs)"

text \<open>The order visits the word set of every document once.\<close>

definition docs_iterated :: "set_order \<Rightarrow> ('a \<times> pystr) list \<Rightarrow> bool" where
  "docs_iterated order docs =
     list_all (\<lambda>(doc, text). iterates order (parse_text_to_word text)) docs"

text \<open>The postings list of a word, empty for a word that is not in the index.\<close>

definition postings_of :: "'a index \<Rightarrow> pystr \<Rightarrow> 'a list" where
  "postings_of idx w = (case idx w of None \<Rightarrow> [] | Some l \<Rightarrow> l)"

text \<open>The part of each postings list from its cursor on, the total length of these parts,
  and the identifiers that occur in all of them.\<close>

definition rests :: "'a index \<Rightarrow> pystr list \<Rightarrow> nat list \<Rightarrow> 'a list list" where
  "rests idx ws cs = map2 (\<lambda>w c. drop c (postings_of idx w)) ws cs"

definition remaining :: "'a index \<Rightarrow> pystr list \<Rightarrow> nat list \<Rightarrow> nat" where
  "remaining idx ws cs = sum_list (map length (rests idx ws cs))"

definition common :: "'a list list \<Rightarrow> 'a set" where
  "common R = {x. \<forall>r\<in>set R. x \<in> set r}"

text \<open>The concrete scenario of the specification: three documents, and an order that
  ranks their vocabulary.\<close>

definition scenario_docs :: "(nat \<times> pystr) list" where
  "scenario_docs = [(1, (latin ''the cat sat'')), (2, (latin ''the dog sat'')), (3, (latin ''the cat ran''))]"

definition scenario_order :: set_order where
  "scenario_order = ranked [(latin ''the''), (latin ''cat''), (latin ''sat''), (latin ''dog''), (latin ''ran''), (latin ''fish'')]"

definition scenario_index :: "nat index" where
  "scenario_index = build scenario_order scenario_docs"

text \<open>The identifiers under the cursors.\<close>

definition ids_at :: "'a index \<Rightarrow> pystr list \<Rightarrow> nat list \<Rightarrow> 'a list" where
  "ids_at idx ws cs = map2 (\<lambda>w c. postings_of idx w ! c) ws cs"

text \<open>Two documents whose identifiers are not added in increasing order.\<close>

definition unordered_docs :: "(nat \<times> pystr) list" where
  "unordered_docs = [(3, (latin ''a'')), (1, (latin ''a b''))]"

text \<open>Every cached reference points into the store, at the list that the plain search
  returns for its query.\<close>

definition cache_consistent :: "set_order \<Rightarrow> 'a::linorder engine \<Rightarrow> bool" where
  "cache_consistent order e =
     list_all (\<lambda>(q, r). r < length (store e) \<and>
        search order (inverted_index e) q = Some (Inr (store e ! r))) (entries (cache e))"

text \<open>The queries that the cache holds, most recently used first, and what a search that
  returns a list does to them.\<close>

definition cached_queries :: "'a engine \<Rightarrow> pystr list" where
  "cached_queries e = map fst (entries (cache e))"

definition touch :: "nat \<Rightarrow> pystr \<Rightarrow> pystr list \<Rightarrow> pystr list" where
  "touch n q ks = (if q \<in> set ks then q # filter (\<lambda>k. k \<noteq> q) ks else take n (q # ks))"

text \<open>\<open>behind q0 S ks\<close>: the query \<open>q0\<close> is not among \<open>ks\<close>, or the queries in front of it
  are those of \<open>S\<close>.\<close>

definition behind :: "pystr \<Rightarrow> pystr set \<Rightarrow> pystr list \<Rightarrow> bool" where
  "behind q0 S ks =
     (q0 \<notin> set ks \<or> (\<exists>pre post. ks = pre @ q0 # post \<and> set pre = S \<and> distinct ks))"

text \<open>A document that begins with U+0130, the same document with a second word, the
  term that the tokenizer stores for the first word (\<open>i\<close>, U+0307 and the rest), and an
  order that ranks the words involved.\<close>

definition dotted_term :: pystr where
  "dotted_term = Latin (CHR ''i'') # Combining_dot # latin ''stanbul''"

definition dotted_docs :: "(nat \<times> pystr) list" where
  "dotted_docs = [(1, Capital_I_dot # latin ''stanbul'')]"

definition dotted_docs_b :: "(nat \<times> pystr) list" where
  "dotted_docs_b = [(1, Capital_I_dot # latin ''stanbul b'')]"

definition dotted_order :: set_order where
  "dotted_order = ranked [dotted_term, latin ''b'', latin ''i'', latin ''stanbul'']"

section \<open>Properties\<close>

subsection \<open>Terms, and texts whose tokens are terms\<close>

lemma latin_eq [simp]: "(latin a = latin b) = (a = b)"
  by (simp add: latin_def inj_map_eq_map inj_def)

lemma latin_Nil [simp]: "latin [] = []"
  by (simp add: latin_def)

lemma latin_eq_Nil [simp]: "(latin s = []) = (s = [])" "([] = latin s) = (s = [])"
  by (auto simp: latin_def)

lemma lower_latin_space: "lower_latin (CHR '' '') = CHR '' ''"
  by (simp add: lower_latin_def)

lemma lower_char_space: "lower_char space = [space]"
  by (simp add: space_def lower_latin_space)

lemma not_word_space: "\<not> is_word space"
  by (simp add: is_word_def space_def is_alnum_latin_def)

lemma is_word_lower_latin: "is_word (Latin c) \<Longrightarrow> is_word (Latin (lower_latin c))"
  unfolding is_word_def is_alnum.simps is_alnum_latin_def lower_latin_def Let_def
  by auto

lemma lower_latin_idem: "lower_latin (lower_latin c) = lower_latin c"
  unfolding lower_latin_def Let_def
  by auto

lemma split_space_not_Nil: "split_space s \<noteq> []"
  by (induction s) (auto split: list.splits)

lemma split_space_no_space: "space \<notin> set w \<Longrightarrow> split_space w = [w]"
  by (induction w) auto

lemma split_space_append:
  "space \<notin> set w \<Longrightarrow> split_space (w @ space # s) = w # split_space s"
  by (induction w) auto

lemma split_space_pieces:
  "w \<in> set (split_space s) \<Longrightarrow> space \<notin> set w \<and> set w \<subseteq> set s"
proof (induction s arbitrary: w)
  case Nil
  then show ?case by simp
next
  case (Cons c cs)
  show ?case
  proof (cases "c = space")
    case True
    with Cons show ?thesis by auto
  next
    case False
    obtain v vs where vs: "split_space cs = v # vs"
      using split_space_not_Nil [of cs] by (cases "split_space cs") auto
    with False Cons.prems have "w = c # v \<or> w \<in> set vs" by auto
    then show ?thesis
    proof
      assume "w = c # v"
      moreover have "space \<notin> set v \<and> set v \<subseteq> set cs"
        using Cons.IH [of v] vs by simp
      ultimately show ?thesis using False by auto
    next
      assume "w \<in> set vs"
      then have "space \<notin> set w \<and> set w \<subseteq> set cs"
        using Cons.IH [of w] vs by simp
      then show ?thesis by auto
    qed
  qed
qed

lemma term_normal: "is_term w \<Longrightarrow> lower (re_sub w) = w \<and> space \<notin> set w"
proof -
  assume t: "is_term w"
  then have all: "\<forall>c\<in>set w. is_word c \<and> lower_char c = [c]"
    by (simp add: is_term_def list_all_iff)
  then have "re_sub w = w" unfolding re_sub_def by (auto intro!: map_idI)
  moreover have "concat (map lower_char v) = v" if "\<forall>c\<in>set v. lower_char c = [c]" for v
    using that by (induction v) auto
  ultimately have "lower (re_sub w) = w" using all by (simp add: lower_def)
  moreover have "space \<notin> set w" using all not_word_space by blast
  ultimately show ?thesis by blast
qed

lemma word_list_term: "is_term w \<Longrightarrow> word_list w = [w]"
  using term_normal [of w] by (simp add: word_list_def split_space_no_space is_term_def)

lemma term_tokens: "is_term w \<Longrightarrow> parse_text_to_word w = {w}"
  by (simp add: parse_text_to_word_def word_list_term)

lemma two_terms_tokens:
  assumes v: "is_term v" and w: "is_term w"
  shows "parse_text_to_word (v @ [space] @ w) = {v, w}"
proof -
  have "lower (re_sub (v @ [space] @ w)) = lower (re_sub v) @ space # lower (re_sub w)"
    by (simp add: lower_def re_sub_def lower_char_space)
  also have "\<dots> = v @ space # w"
    using term_normal v w by simp
  finally have "word_list (v @ [space] @ w) = [v, w]"
    using term_normal [OF v] term_normal [OF w] v w
    by (simp add: word_list_def split_space_append split_space_no_space is_term_def)
  then show ?thesis by (simp add: parse_text_to_word_def)
qed

text \<open>In a text without U+0130 every token is a term, and so is its own only token.\<close>

lemma normal_text_chars:
  assumes "Capital_I_dot \<notin> set text" and "c \<in> set (lower (re_sub text))"
  shows "c = space \<or> (is_word c \<and> lower_char c = [c])"
proof -
  from assms(2) obtain x where x: "x \<in> set text"
    and c: "c \<in> set (lower_char (if is_word x \<or> x = space then x else space))"
    by (auto simp: lower_def re_sub_def)
  show ?thesis
  proof (cases x)
    case (Latin a)
    show ?thesis
    proof (cases "is_word x")
      case True
      with c Latin have "c = Latin (lower_latin a)" by simp
      with True Latin show ?thesis
        by (simp add: is_word_lower_latin lower_latin_idem)
    next
      case False
      with c show ?thesis by (simp add: lower_char_space split: if_splits)
    qed
  next
    case Capital_I_dot
    with x assms(1) show ?thesis by simp
  next
    case Combining_dot
    then have "\<not> is_word x" "x \<noteq> space" by (simp_all add: is_word_def space_def)
    with c show ?thesis by (simp add: lower_char_space)
  qed
qed

lemma word_list_terms:
  assumes "Capital_I_dot \<notin> set text" and "w \<in> set (word_list text)"
  shows "is_term w"
proof -
  from assms(2) have ne: "w \<noteq> []" and "w \<in> set (split_space (lower (re_sub text)))"
    by (auto simp: word_list_def)
  then have "space \<notin> set w" "set w \<subseteq> set (lower (re_sub text))"
    using split_space_pieces by blast+
  then have "\<forall>c\<in>set w. is_word c \<and> lower_char c = [c]"
    using normal_text_chars [OF assms(1)] by blast
  with ne show ?thesis by (simp add: is_term_def list_all_iff)
qed

lemma tokens_tokenize_to_themselves:
  "Capital_I_dot \<notin> set text \<Longrightarrow> w \<in> parse_text_to_word text \<Longrightarrow> parse_text_to_word w = {w}"
  by (simp add: parse_text_to_word_def word_list_terms term_tokens [unfolded parse_text_to_word_def])

subsection \<open>The index holds, for each word, the documents that contain it\<close>

lemma add_posting_apply:
  "add_posting d v idx w =
     (if w = v then Some ((case idx w of None \<Rightarrow> [] | Some l \<Rightarrow> l) @ [d]) else idx w)"
  by (simp add: add_posting_def split: option.splits)

lemma fold_add_posting:
  "distinct ws \<Longrightarrow>
   fold (add_posting d) ws idx w =
     (if w \<in> set ws then Some ((case idx w of None \<Rightarrow> [] | Some l \<Rightarrow> l) @ [d]) else idx w)"
proof (induction ws arbitrary: idx)
  case Nil
  then show ?case by simp
next
  case (Cons v ws)
  then show ?case by (simp add: add_posting_apply)
qed

lemma process_corpus_apply:
  "iterates order (parse_text_to_word text) \<Longrightarrow>
   process_corpus order d text idx w =
     (if w \<in> parse_text_to_word text
      then Some ((case idx w of None \<Rightarrow> [] | Some l \<Rightarrow> l) @ [d]) else idx w)"
  by (simp add: process_corpus_def iterates_def fold_add_posting)

lemma fold_process_corpus:
  "docs_iterated order docs \<Longrightarrow>
   fold (\<lambda>(doc, text). process_corpus order doc text) docs idx w =
     (if postings docs w = [] then idx w
      else Some ((case idx w of None \<Rightarrow> [] | Some l \<Rightarrow> l) @ postings docs w))"
proof (induction docs arbitrary: idx)
  case Nil
  then show ?case by (simp add: postings_def)
next
  case (Cons p docs)
  obtain d t where p: "p = (d, t)" by (cases p)
  from Cons.prems p have it: "iterates order (parse_text_to_word t)"
    and rest: "docs_iterated order docs"
    by (simp_all add: docs_iterated_def)
  show ?case
    using Cons.IH [OF rest] 
    by (simp add: p process_corpus_apply [OF it] postings_def)
qed

lemma build_apply:
  "docs_iterated order docs \<Longrightarrow>
   build order docs w = (if postings docs w = [] then None else Some (postings docs w))"
  by (simp add: build_def fold_process_corpus)

lemma postings_sorted:
  "sorted_wrt (<) (map fst docs) \<Longrightarrow> sorted_wrt (<) (postings docs w)"
  by (induction docs) (auto simp: postings_def)

lemma postings_distinct:
  "distinct (map fst docs) \<Longrightarrow> distinct (postings docs w)"
  by (induction docs) (auto simp: postings_def)

lemma set_postings:
  "set (postings docs w) = {d. \<exists>text. (d, text) \<in> set docs \<and> w \<in> parse_text_to_word text}"
  by (force simp: postings_def)

text \<open>When no document contains U+0130, every term of the index is its own
  tokenization.\<close>

lemma index_keys_tokenize:
  assumes "docs_iterated order docs"
    and "\<forall>(doc, text)\<in>set docs. Capital_I_dot \<notin> set text"
    and "build order docs w = Some l"
  shows "parse_text_to_word w = {w}"
proof -
  from assms(1,3) have "postings docs w \<noteq> []" by (auto simp: build_apply split: if_splits)
  then have "set (postings docs w) \<noteq> {}" by simp
  then obtain d t where "(d, t) \<in> set docs" "w \<in> parse_text_to_word t"
    unfolding set_postings by blast
  with assms(2) show ?thesis using tokens_tokenize_to_themselves [of t w] by auto
qed

subsection \<open>One pass of the loop\<close>

lemma length_rests: "length cs = length ws \<Longrightarrow> length (rests idx ws cs) = length ws"
  by (simp add: rests_def)

lemma current_ids_rests:
  "length cs = length ws \<Longrightarrow> \<forall>w\<in>set ws. idx w \<noteq> None \<Longrightarrow>
   current_ids idx ws cs =
     (if [] \<in> set (rests idx ws cs) then Inr None else Inr (Some (map hd (rests idx ws cs))))"
proof (induction cs ws rule: list_induct2)
  case Nil
  then show ?case by (simp add: rests_def)
next
  case (Cons c cs w ws)
  then obtain l where l: "idx w = Some l" by auto
  have ih: "current_ids idx ws cs =
     (if [] \<in> set (rests idx ws cs) then Inr None else Inr (Some (map hd (rests idx ws cs))))"
    using Cons by simp
  have r: "rests idx (w # ws) (c # cs) = drop c l # rests idx ws cs"
    by (simp add: rests_def postings_of_def l)
  show ?case
  proof (cases "c \<ge> length l")
    case True
    then show ?thesis by (simp add: l r)
  next
    case False
    then have "drop c l \<noteq> []" "hd (drop c l) = l ! c"
      by (simp_all add: hd_drop_conv_nth)
    with False show ?thesis by (simp add: l r ih)
  qed
qed

lemma rests_Suc: "rests idx ws (map Suc cs) = map tl (rests idx ws cs)"
  by (induction ws cs rule: list_induct2') (simp_all add: rests_def drop_Suc tl_drop)

lemma rests_update:
  "length cs = length ws \<Longrightarrow> p < length ws \<Longrightarrow>
   rests idx ws (cs[p := Suc (cs ! p)]) = (rests idx ws cs)[p := tl (rests idx ws cs ! p)]"
proof (induction cs ws arbitrary: p rule: list_induct2)
  case Nil
  then show ?case by simp
next
  case (Cons c cs w ws)
  show ?case
  proof (cases p)
    case 0
    then show ?thesis by (simp add: rests_def drop_Suc tl_drop)
  next
    case (Suc q)
    with Cons.prems have "q < length ws" by simp
    from Cons.IH [OF this] show ?thesis
      by (simp add: Suc rests_def)
  qed
qed

lemma all_same_hd: "ids \<noteq> [] \<Longrightarrow> all_same ids = (\<forall>x\<in>set ids. x = hd ids)"
  by (simp add: all_same_def list_all_iff hd_conv_nth)

lemma min_py_Min:
  assumes "ids \<noteq> []"
  shows "min_py ids = Inr (Min (set ids))"
proof (cases ids)
  case Nil
  with assms show ?thesis by simp
next
  case (Cons a list)
  then show ?thesis using Min.set_eq_fold [of a list] by simp
qed

lemma index_py_first:
  "v \<in> set xs \<Longrightarrow>
   \<exists>p. index_py xs v = Inr p \<and> p < length xs \<and> xs ! p = v \<and> (\<forall>q<p. xs ! q \<noteq> v)"
proof (induction xs)
  case Nil
  then show ?case by simp
next
  case (Cons x xs)
  show ?case
  proof (cases "x = v")
    case True
    then show ?thesis by simp
  next
    case False
    with Cons obtain p where p: "index_py xs v = Inr p" "p < length xs" "xs ! p = v"
      "\<forall>q<p. xs ! q \<noteq> v" by auto
    have "\<forall>q<Suc p. (x # xs) ! q \<noteq> v"
    proof (intro allI impI)
      fix q assume "q < Suc p"
      then show "(x # xs) ! q \<noteq> v" using False p(4) by (cases q) auto
    qed
    with False p show ?thesis by simp
  qed
qed

text \<open>The three outcomes of one pass, for a non-empty list of present words.\<close>

lemma iteration_outcome:
  assumes len: "length cs = length ws" and ne: "ws \<noteq> []"
    and present: "\<forall>w\<in>set ws. idx w \<noteq> None"
  defines "R \<equiv> rests idx ws cs"
  shows "[] \<in> set R \<Longrightarrow> iteration idx ws cs res = Return res"
    and "[] \<notin> set R \<Longrightarrow> all_same (map hd R) \<Longrightarrow>
         iteration idx ws cs res = Continue (map Suc cs) (res @ [hd (hd R)])"
    and "[] \<notin> set R \<Longrightarrow> \<not> all_same (map hd R) \<Longrightarrow>
         \<exists>p<length ws. hd (R ! p) = Min (set (map hd R)) \<and>
            (\<forall>q<p. hd (R ! q) \<noteq> Min (set (map hd R))) \<and>
            iteration idx ws cs res = Continue (cs[p := cs ! p + 1]) res"
proof -
  have lenR: "length R = length ws" unfolding R_def by (rule length_rests [OF len])
  with ne have Rne: "R \<noteq> []" by auto
  note cur = current_ids_rests [OF len present, folded R_def]
  show "[] \<in> set R \<Longrightarrow> iteration idx ws cs res = Return res"
    by (simp add: iteration_def cur)
  show "[] \<notin> set R \<Longrightarrow> all_same (map hd R) \<Longrightarrow>
         iteration idx ws cs res = Continue (map Suc cs) (res @ [hd (hd R)])"
    using Rne by (cases R) (simp_all add: iteration_def cur)
  show "\<exists>p<length ws. hd (R ! p) = Min (set (map hd R)) \<and>
            (\<forall>q<p. hd (R ! q) \<noteq> Min (set (map hd R))) \<and>
            iteration idx ws cs res = Continue (cs[p := cs ! p + 1]) res"
    if full: "[] \<notin> set R" and diff: "\<not> all_same (map hd R)"
  proof -
    let ?ids = "map hd R"
    let ?m = "Min (set ?ids)"
    have idsne: "?ids \<noteq> []" using Rne by simp
    then have "?m \<in> set ?ids" by (intro Min_in) auto
    from index_py_first [OF this] obtain p where p: "index_py ?ids ?m = Inr p"
      "p < length ?ids" "?ids ! p = ?m" "\<forall>q<p. ?ids ! q \<noteq> ?m" by blast
    from p(2) lenR have pl: "p < length ws" "p < length cs" "p < length R" using len by simp_all
    have "iteration idx ws cs res = Continue (cs[p := cs ! p + 1]) res"
      using full diff pl p(1) by (simp add: iteration_def cur min_py_Min [OF idsne])
    moreover have "hd (R ! p) = ?m" using p(3) pl by simp
    moreover have "\<forall>q<p. hd (R ! q) \<noteq> ?m"
      using p(4) pl by (auto simp: nth_map)
    ultimately show ?thesis using pl by blast
  qed
qed

lemma remaining_Suc:
  "length cs = length ws \<Longrightarrow> ws \<noteq> [] \<Longrightarrow> [] \<notin> set (rests idx ws cs) \<Longrightarrow>
   remaining idx ws (map Suc cs) < remaining idx ws cs"
proof -
  assume len: "length cs = length ws" and ne: "ws \<noteq> []" and full: "[] \<notin> set (rests idx ws cs)"
  have gen: "R \<noteq> [] \<Longrightarrow> [] \<notin> set R \<Longrightarrow>
      sum_list (map length (map tl R)) < sum_list (map length R)" for R :: "'a list list"
  proof (induction R)
    case Nil
    then show ?case by simp
  next
    case (Cons r R)
    then have "r \<noteq> []" by auto
    then have a: "length (tl r) < length r" by (cases r) auto
    have "sum_list (map length (map tl R)) \<le> sum_list (map length R)"
      by (induction R) (auto simp: le_diff_conv)
    with a show ?case by simp
  qed
  have "rests idx ws cs \<noteq> []" using length_rests [OF len, of idx] ne by auto
  from gen [OF this full] show ?thesis
    by (simp add: remaining_def rests_Suc)
qed

lemma remaining_update:
  "length cs = length ws \<Longrightarrow> p < length ws \<Longrightarrow> [] \<notin> set (rests idx ws cs) \<Longrightarrow>
   remaining idx ws (cs[p := cs ! p + 1]) < remaining idx ws cs"
proof -
  assume len: "length cs = length ws" and p: "p < length ws"
    and full: "[] \<notin> set (rests idx ws cs)"
  have gen: "p < length R \<Longrightarrow> R ! p \<noteq> [] \<Longrightarrow>
      sum_list (map length (R[p := tl (R ! p)])) < sum_list (map length R)"
    for R :: "'a list list" and p
  proof (induction R arbitrary: p)
    case Nil
    then show ?case by simp
  next
    case (Cons r R)
    show ?case
    proof (cases p)
      case 0
      with Cons.prems have "r \<noteq> []" by simp
      then have "length (tl r) < length r" by (cases r) auto
      with 0 show ?thesis by simp
    next
      case (Suc q)
      with Cons show ?thesis by simp
    qed
  qed
  have pr: "p < length (rests idx ws cs)" using length_rests [OF len, of idx] p by simp
  then have "rests idx ws cs ! p \<noteq> []" using full nth_mem by metis
  from gen [OF pr this] show ?thesis
    by (simp add: remaining_def rests_update [OF len p])
qed


subsection \<open>The loop returns, and on increasing postings lists it intersects\<close>

lemma search_loop_returns:
  assumes ne: "ws \<noteq> []" and present: "\<forall>w\<in>set ws. idx w \<noteq> None"
  shows "length cs = length ws \<Longrightarrow> \<exists>r. search_loop idx ws cs res = Some (Inr r)"
proof (induction "remaining idx ws cs" arbitrary: cs res rule: less_induct)
  case less
  note len = \<open>length cs = length ws\<close>
  note out = iteration_outcome [OF len ne present]
  let ?R = "rests idx ws cs"
  show ?case
  proof (cases "[] \<in> set ?R")
    case True
    then show ?thesis by (simp add: search_loop.simps [of idx ws cs] out(1))
  next
    case full: False
    show ?thesis
    proof (cases "all_same (map hd ?R)")
      case True
      have "\<exists>r. search_loop idx ws (map Suc cs) (res @ [hd (hd ?R)]) = Some (Inr r)"
        using less.hyps [of "map Suc cs"] remaining_Suc [OF len ne full] len by simp
      then show ?thesis
        by (simp add: search_loop.simps [of idx ws cs] out(2) [OF full True])
    next
      case False
      from out(3) [OF full False, of res] obtain p where p: "p < length ws"
        and it: "iteration idx ws cs res = Continue (cs[p := cs ! p + 1]) res" by blast
      have "\<exists>r. search_loop idx ws (cs[p := cs ! p + 1]) res = Some (Inr r)"
        using less.hyps [of "cs[p := cs ! p + 1]"] remaining_update [OF len p full] len by simp
      then show ?thesis
        by (simp add: search_loop.simps [of idx ws cs] it)
    qed
  qed
qed

lemma all_same_map_hd:
  "R \<noteq> [] \<Longrightarrow> all_same (map hd R) = (\<forall>r\<in>set R. hd r = hd (hd R))"
  by (cases R) (auto simp: all_same_def list_all_iff)

lemma common_all_same:
  assumes ne: "R \<noteq> []" and full: "[] \<notin> set R"
    and sorted: "\<forall>r\<in>set R. sorted_wrt (<) r"
    and same: "all_same (map hd R)"
  shows "common R = insert (hd (hd R)) (common (map tl R))"
    and "\<forall>x\<in>common (map tl R). hd (hd R) < x"
proof -
  let ?v = "hd (hd R)"
  from all_same_map_hd [OF ne] same have "\<forall>r\<in>set R. hd r = ?v"
    by simp
  with full have shape: "\<forall>r\<in>set R. r = ?v # tl r"
    by (metis list.collapse)
  show "common R = insert ?v (common (map tl R))"
  proof (rule set_eqI)
    fix x
    have "(\<forall>r\<in>set R. x \<in> set r) = (\<forall>r\<in>set R. x = ?v \<or> x \<in> set (tl r))"
      using shape by (metis set_ConsD list.set_intros)
    also have "\<dots> = (x = ?v \<or> (\<forall>r\<in>set R. x \<in> set (tl r)))" by blast
    finally show "x \<in> common R \<longleftrightarrow> x \<in> insert ?v (common (map tl R))"
      by (simp add: common_def)
  qed
  show "\<forall>x\<in>common (map tl R). ?v < x"
  proof
    fix x assume "x \<in> common (map tl R)"
    moreover have h: "hd R \<in> set R" using ne by simp
    ultimately have x: "x \<in> set (tl (hd R))" by (simp add: common_def)
    have "sorted_wrt (<) (?v # tl (hd R))" using shape sorted h by metis
    with x show "?v < x" by simp
  qed
qed

lemma common_advance_min:
  assumes full: "[] \<notin> set R"
    and sorted: "\<forall>r\<in>set R. sorted_wrt (<) r"
    and diff: "\<not> all_same (map hd R)"
    and p: "p < length R" and min: "hd (R ! p) = Min (set (map hd R))"
  shows "common (R[p := tl (R ! p)]) = common R"
proof -
  let ?m = "Min (set (map hd R))"
  have Rne: "R \<noteq> []" using p by auto
  then have idsne: "map hd R \<noteq> []" by simp
  have "\<exists>r\<in>set R. hd r \<noteq> ?m"
  proof (rule ccontr)
    assume "\<not> (\<exists>r\<in>set R. hd r \<noteq> ?m)"
    then have all: "\<forall>r\<in>set R. hd r = ?m" by blast
    moreover have "hd R \<in> set R" using Rne by simp
    ultimately have "hd (hd R) = ?m" by blast
    with all have "\<forall>r\<in>set R. hd r = hd (hd R)" by simp
    with all_same_map_hd [OF Rne] diff show False by blast
  qed
  then obtain r where r: "r \<in> set R" "hd r \<noteq> ?m" by blast
  have "?m \<le> hd r" using r(1) by (intro Min_le) auto
  with r(2) have lt: "?m < hd r" by simp
  have rne: "r \<noteq> []" using full r(1) by auto
  then have "r = hd r # tl r" by simp
  moreover have "sorted_wrt (<) r" using sorted r(1) by blast
  ultimately have "\<forall>x\<in>set r. hd r \<le> x" 
    by (metis less_imp_le order_refl set_ConsD sorted_wrt.simps(2))
  with lt have notin: "?m \<notin> set r" by auto
  have Rp: "R ! p = ?m # tl (R ! p)"
    using full p min by (metis list.collapse nth_mem)
  have nth: "common R = {x. \<forall>q<length R. x \<in> set (R ! q)}"
    by (auto simp: common_def all_set_conv_all_nth)
  have nth': "common (R[p := tl (R ! p)]) =
      {x. \<forall>q<length R. x \<in> set (if q = p then tl (R ! p) else R ! q)}"
  proof -
    have "(R[p := tl (R ! p)]) ! q = (if q = p then tl (R ! p) else R ! q)"
      if "q < length R" for q
      using that by (simp add: nth_list_update)
    then show ?thesis
      by (simp add: common_def all_set_conv_all_nth)
  qed
  show ?thesis
  proof (rule set_eqI)
    fix x
    show "x \<in> common (R[p := tl (R ! p)]) \<longleftrightarrow> x \<in> common R"
    proof
      assume a: "x \<in> common (R[p := tl (R ! p)])"
      have "x \<in> set (R ! q)" if "q < length R" for q
      proof (cases "q = p")
        case True
        with a p have "x \<in> set (tl (R ! p))" unfolding nth' by auto
        then show ?thesis using True Rp by (metis list.set_intros(2))
      next
        case False
        with a that show ?thesis unfolding nth' by auto
      qed
      then show "x \<in> common R" unfolding nth by blast
    next
      assume a: "x \<in> common R"
      then have "x \<in> set r" using r(1) by (simp add: common_def)
      with notin have "x \<noteq> ?m" by blast
      moreover have "x \<in> set (R ! p)" using a p unfolding nth by blast
      ultimately have "x \<in> set (tl (R ! p))" using Rp by (metis set_ConsD)
      with a show "x \<in> common (R[p := tl (R ! p)])" unfolding nth nth' by auto
    qed
  qed
qed

lemma common_empty_rest: "[] \<in> set R \<Longrightarrow> common R = {}"
  by (fastforce simp: common_def)

lemma rests_sorted:
  "\<forall>w\<in>set ws. sorted_wrt (<) (postings_of idx w) \<Longrightarrow>
   \<forall>r\<in>set (rests idx ws cs). sorted_wrt (<) r"
  by (auto simp: rests_def sorted_wrt_drop dest!: set_zip_leftD)

lemma search_loop_sorted:
  assumes ne: "ws \<noteq> []" and present: "\<forall>w\<in>set ws. idx w \<noteq> None"
    and sorted: "\<forall>w\<in>set ws. sorted_wrt (<) (postings_of idx w)"
  shows "length cs = length ws \<Longrightarrow>
    \<exists>xs. search_loop idx ws cs res = Some (Inr (res @ xs)) \<and> sorted_wrt (<) xs \<and>
          set xs = common (rests idx ws cs)"
proof (induction "remaining idx ws cs" arbitrary: cs res rule: less_induct)
  case less
  note len = \<open>length cs = length ws\<close>
  note out = iteration_outcome [OF len ne present]
  let ?R = "rests idx ws cs"
  have lenR: "length ?R = length ws" by (rule length_rests [OF len])
  then have Rne: "?R \<noteq> []" using ne by auto
  have srt: "\<forall>r\<in>set ?R. sorted_wrt (<) r" by (rule rests_sorted [OF sorted])
  show ?case
  proof (cases "[] \<in> set ?R")
    case True
    then show ?thesis
      by (simp add: search_loop.simps [of idx ws cs] out(1) common_empty_rest)
  next
    case full: False
    show ?thesis
    proof (cases "all_same (map hd ?R)")
      case True
      let ?v = "hd (hd ?R)"
      from less.hyps [of "map Suc cs" "res @ [?v]"] remaining_Suc [OF len ne full] len
      obtain xs where xs: "search_loop idx ws (map Suc cs) (res @ [?v]) = Some (Inr ((res @ [?v]) @ xs))"
        "sorted_wrt (<) xs" "set xs = common (rests idx ws (map Suc cs))" by auto
      note cm = common_all_same [OF Rne full srt True]
      have "search_loop idx ws cs res = Some (Inr (res @ (?v # xs)))"
        using xs(1) by (simp add: search_loop.simps [of idx ws cs] out(2) [OF full True])
      moreover have "sorted_wrt (<) (?v # xs)"
        using xs(2,3) cm(2) by (simp add: rests_Suc)
      moreover have "set (?v # xs) = common ?R"
        using xs(3) cm(1) by (simp add: rests_Suc)
      ultimately show ?thesis by blast
    next
      case False
      from out(3) [OF full False, of res] obtain p where p: "p < length ws"
        and min: "hd (?R ! p) = Min (set (map hd ?R))"
        and it: "iteration idx ws cs res = Continue (cs[p := cs ! p + 1]) res" by blast
      from less.hyps [of "cs[p := cs ! p + 1]" res] remaining_update [OF len p full] len
      obtain xs where xs: "search_loop idx ws (cs[p := cs ! p + 1]) res = Some (Inr (res @ xs))"
        "sorted_wrt (<) xs" "set xs = common (rests idx ws (cs[p := cs ! p + 1]))" by auto
      have pR: "p < length ?R" using p lenR by simp
      have "common (rests idx ws (cs[p := cs ! p + 1])) = common ?R"
        using common_advance_min [OF full srt False pR min] rests_update [OF len p, of idx]
        by simp
      with xs have "search_loop idx ws cs res = Some (Inr (res @ xs)) \<and> sorted_wrt (<) xs \<and>
          set xs = common ?R"
        by (simp add: search_loop.simps [of idx ws cs] it)
      then show ?thesis by blast
    qed
  qed
qed



subsection \<open>The empty query\<close>

lemma word_list_empty: "word_list [] = []"
  by (simp add: word_list_def lower_def re_sub_def)

lemma iteration_no_words: "iteration idx [] cs result = Raise IndexError"
  by (simp add: iteration_def all_same_def)

lemma search_words_no_words: "search_words idx [] = Some (Inl IndexError)"
  by (simp add: search_words_def search_loop.simps iteration_no_words)

subsection \<open>Searching from the first cursors\<close>

lemma rests_start: "rests idx ws (map (\<lambda>_. 0) ws) = map (postings_of idx) ws"
  by (induction ws) (simp_all add: rests_def)

lemma common_postings:
  "common (map (postings_of idx) ws) = {x. \<forall>w\<in>set ws. x \<in> set (postings_of idx w)}"
  by (simp add: common_def)

lemma search_words_present:
  "\<forall>w\<in>set ws. idx w \<noteq> None \<Longrightarrow>
   search_words idx ws = search_loop idx ws (map (\<lambda>_. 0) ws) []"
  by (auto simp: search_words_def list_ex_iff)

lemma search_words_absent:
  "\<exists>w\<in>set ws. idx w = None \<Longrightarrow> search_words idx ws = Some (Inr [])"
  by (simp add: search_words_def list_ex_iff)

lemma search_words_returns:
  assumes "ws \<noteq> []" and "\<forall>w\<in>set ws. idx w \<noteq> None"
  shows "\<exists>r. search_words idx ws = Some (Inr r)"
  using search_loop_returns [OF assms, of "map (\<lambda>_. 0) ws" "[]"]
  by (simp add: search_words_present [OF assms(2)])

lemma search_words_sorted:
  assumes "ws \<noteq> []" and "\<forall>w\<in>set ws. idx w \<noteq> None"
    and "\<forall>w\<in>set ws. sorted_wrt (<) (postings_of idx w)"
  shows "\<exists>r. search_words idx ws = Some (Inr r) \<and> sorted_wrt (<) r \<and>
           set r = {x. \<forall>w\<in>set ws. x \<in> set (postings_of idx w)}"
  using search_loop_sorted [OF assms, of "map (\<lambda>_. 0) ws" "[]"]
  by (simp add: search_words_present [OF assms(2)] rests_start common_postings)

lemma iteration_continue:
  assumes len: "length cs = length ws" and ne: "ws \<noteq> []"
    and present: "\<forall>w\<in>set ws. idx w \<noteq> None"
    and it: "iteration idx ws cs res = Continue cs' res'"
  shows "length cs' = length ws \<and> remaining idx ws cs' < remaining idx ws cs"
proof -
  note out = iteration_outcome [OF len ne present]
  let ?R = "rests idx ws cs"
  have full: "[] \<notin> set ?R" using out(1) [of res] it by auto
  show ?thesis
  proof (cases "all_same (map hd ?R)")
    case True
    from out(2) [OF full True, of res] it have "cs' = map Suc cs" by simp
    then show ?thesis using remaining_Suc [OF len ne full] len by simp
  next
    case False
    from out(3) [OF full False, of res] it obtain p where "p < length ws"
      "cs' = cs[p := cs ! p + 1]" by auto
    then show ?thesis using remaining_update [OF len _ full, of p] len by simp
  qed
qed

lemma iterates_words:
  "iterates order S \<Longrightarrow> S \<noteq> {} \<Longrightarrow> order S \<noteq> [] \<and> set (order S) = S"
  by (auto simp: iterates_def)

text \<open>
  C5. For a query with at least one term, all of whose terms are in the index, the
  intersection loop terminates: \<open>search\<close> returns a list, the loop returns from every
  state with one cursor per term, and each pass that goes on to another pass makes
  \<open>remaining\<close>, the total length of the postings lists from their cursors on, smaller.
\<close>

theorem search_terminates:
  assumes "parse_text_to_word query \<noteq> {}"
    and "iterates order (parse_text_to_word query)"
    and "\<forall>w\<in>parse_text_to_word query. idx w \<noteq> None"
  shows "(\<exists>r. search order idx query = Some (Inr r)) \<and>
    (\<forall>cs res. length cs = length (order (parse_text_to_word query)) \<longrightarrow>
       (\<exists>r. search_loop idx (order (parse_text_to_word query)) cs res = Some (Inr r)) \<and>
       (\<forall>cs' res'.
          iteration idx (order (parse_text_to_word query)) cs res = Continue cs' res' \<longrightarrow>
          remaining idx (order (parse_text_to_word query)) cs'
            < remaining idx (order (parse_text_to_word query)) cs))"
proof -
  let ?ws = "order (parse_text_to_word query)"
  from iterates_words [OF assms(2,1)] have ne: "?ws \<noteq> []"
    and present: "\<forall>w\<in>set ?ws. idx w \<noteq> None" using assms(3) by simp_all
  have "\<exists>r. search order idx query = Some (Inr r)"
    using search_words_returns [OF ne present] by (simp add: search_def)
  moreover have "\<exists>r. search_loop idx ?ws cs res = Some (Inr r)"
    if "length cs = length ?ws" for cs res
    using search_loop_returns [OF ne present that] .
  moreover have "remaining idx ?ws cs' < remaining idx ?ws cs"
    if "length cs = length ?ws" "iteration idx ?ws cs res = Continue cs' res'"
    for cs res cs' res'
    using iteration_continue [OF that(1) ne present that(2)] by simp
  ultimately show ?thesis by blast
qed

subsection \<open>The concrete scenario\<close>

lemma scenario_tokens:
  "parse_text_to_word (latin ''the cat sat'') = {(latin ''the''), (latin ''cat''), (latin ''sat'')}"
  "parse_text_to_word (latin ''the dog sat'') = {(latin ''the''), (latin ''dog''), (latin ''sat'')}"
  "parse_text_to_word (latin ''the cat ran'') = {(latin ''the''), (latin ''cat''), (latin ''ran'')}"
  "parse_text_to_word (latin ''cat sat'') = {(latin ''cat''), (latin ''sat'')}"
  "parse_text_to_word (latin ''cat'') = {(latin ''cat'')}"
  by (simp_all add: parse_text_to_word_def word_list_def lower_def re_sub_def
      is_word_def is_alnum_latin_def lower_latin_def latin_def space_def)

lemma scenario_index_values:
  "scenario_index (latin ''the'') = Some [1, 2, 3]"
  "scenario_index (latin ''cat'') = Some [1, 3]"
  "scenario_index (latin ''sat'') = Some [1, 2]"
  "scenario_index (latin ''dog'') = Some [2]"
  "scenario_index (latin ''ran'') = Some [3]"
  "scenario_index (latin ''fish'') = None"
  by (simp_all add: scenario_index_def scenario_docs_def scenario_order_def build_def
      process_corpus_def scenario_tokens ranked_def add_posting_def)

theorem search_terminates_witness:
  "parse_text_to_word (latin ''cat sat'') \<noteq> {} \<and>
   iterates scenario_order (parse_text_to_word (latin ''cat sat'')) \<and>
   parse_text_to_word (latin ''cat sat'') = {(latin ''cat''), (latin ''sat'')} \<and>
   scenario_index (latin ''cat'') = Some [1, 3] \<and> scenario_index (latin ''sat'') = Some [1, 2] \<and>
   (\<exists>r. search scenario_order scenario_index (latin ''cat sat'') = Some (Inr r))"
proof -
  have h1: "parse_text_to_word (latin ''cat sat'') \<noteq> {}"
    by (simp add: scenario_tokens)
  have h2: "iterates scenario_order (parse_text_to_word (latin ''cat sat''))"
    by (simp add: scenario_tokens iterates_def scenario_order_def ranked_def)
  have h3: "\<forall>w\<in>parse_text_to_word (latin ''cat sat''). scenario_index w \<noteq> None"
    by (simp add: scenario_tokens scenario_index_values)
  from search_terminates [OF h1 h2 h3] h1 h2 scenario_tokens(4) scenario_index_values(2,3)
  show ?thesis by blast
qed

subsection \<open>The advance rule\<close>

lemma rests_in_bounds:
  "list_all2 (\<lambda>w c. c < length (postings_of idx w)) ws cs \<Longrightarrow>
   [] \<notin> set (rests idx ws cs) \<and> map hd (rests idx ws cs) = ids_at idx ws cs"
  by (induction ws cs rule: list_all2_induct)
     (simp_all add: rests_def ids_at_def hd_drop_conv_nth)

lemma all_same_pairwise: "all_same ids = (\<forall>x\<in>set ids. \<forall>y\<in>set ids. x = y)"
proof (cases ids)
  case Nil
  then show ?thesis by (simp add: all_same_def)
next
  case (Cons a list)
  then have "all_same ids = (\<forall>x\<in>set ids. x = a)"
    by (simp add: all_same_def list_all_iff)
  moreover have "a \<in> set ids" using Cons by simp
  ultimately show ?thesis by metis
qed

text \<open>
  C4. One pass of the intersection loop, with at least one query term, all terms in the
  index and every cursor inside its postings list. If the identifiers under the cursors
  are all equal, the pass appends that identifier to the result and moves every cursor on
  by one. Otherwise it moves on by one the cursor at one position \<open>p\<close> whose identifier
  is the minimum, leaves the other cursors alone and appends nothing.
\<close>

theorem iteration_advances:
  assumes ne: "ws \<noteq> []" and present: "\<forall>w\<in>set ws. idx w \<noteq> None"
    and inb: "list_all2 (\<lambda>w c. c < length (postings_of idx w)) ws cs"
  shows "((\<forall>x\<in>set (ids_at idx ws cs). \<forall>y\<in>set (ids_at idx ws cs). x = y) \<longrightarrow>
            iteration idx ws cs res = Continue (map Suc cs) (res @ [hd (ids_at idx ws cs)])) \<and>
         (\<not> (\<forall>x\<in>set (ids_at idx ws cs). \<forall>y\<in>set (ids_at idx ws cs). x = y) \<longrightarrow>
            (\<exists>p<length cs. ids_at idx ws cs ! p = Min (set (ids_at idx ws cs)) \<and>
               iteration idx ws cs res = Continue (cs[p := cs ! p + 1]) res))"
proof -
  from inb have len: "length cs = length ws" by (simp add: list_all2_lengthD)
  note out = iteration_outcome [OF len ne present]
  let ?R = "rests idx ws cs"
  from rests_in_bounds [OF inb] have full: "[] \<notin> set ?R"
    and ids: "map hd ?R = ids_at idx ws cs" by simp_all
  have Rne: "?R \<noteq> []" using length_rests [OF len, of idx] ne by auto
  then have hd: "hd (hd ?R) = hd (ids_at idx ws cs)"
    using ids by (metis hd_map)
  have lenR: "length ?R = length ws" by (rule length_rests [OF len])
  show ?thesis
  proof (cases "all_same (ids_at idx ws cs)")
    case True
    with out(2) [OF full, of res] ids hd show ?thesis
      by (simp add: all_same_pairwise)
  next
    case False
    with out(3) [OF full, of res] ids obtain p where p: "p < length ws"
      "hd (?R ! p) = Min (set (ids_at idx ws cs))"
      "iteration idx ws cs res = Continue (cs[p := cs ! p + 1]) res" by auto
    have "ids_at idx ws cs ! p = hd (?R ! p)"
      using p(1) lenR ids by (metis nth_map)
    with p False len show ?thesis by (auto simp: all_same_pairwise)
  qed
qed

theorem iteration_advances_witness:
  "scenario_index (latin ''cat'') = Some [1, 3] \<and> scenario_index (latin ''sat'') = Some [1, 2] \<and>
   list_all2 (\<lambda>w c. c < length (postings_of scenario_index w)) [(latin ''cat''), (latin ''sat'')] [1, 1] \<and>
   ids_at scenario_index [(latin ''cat''), (latin ''sat'')] [1, 1] = [3, 2] \<and>
   iteration scenario_index [(latin ''cat''), (latin ''sat'')] [1, 1] [1] = Continue [1, 2] [1] \<and>
   ids_at scenario_index [(latin ''cat''), (latin ''sat'')] [0, 0] = [1, 1] \<and>
   iteration scenario_index [(latin ''cat''), (latin ''sat'')] [0, 0] [] = Continue [1, 1] [1]"
proof -
  have h1: "[(latin ''cat''), (latin ''sat'')] \<noteq> []" by simp
  have h2: "\<forall>w\<in>set [(latin ''cat''), (latin ''sat'')]. scenario_index w \<noteq> None"
    by (simp add: scenario_index_values)
  have h3: "list_all2 (\<lambda>w c. c < length (postings_of scenario_index w)) [(latin ''cat''), (latin ''sat'')] [1, 1]"
    by (simp add: postings_of_def scenario_index_values)
  have h4: "list_all2 (\<lambda>w c. c < length (postings_of scenario_index w)) [(latin ''cat''), (latin ''sat'')] [0, 0]"
    by (simp add: postings_of_def scenario_index_values)
  have i1: "ids_at scenario_index [(latin ''cat''), (latin ''sat'')] [1, 1] = [3, 2]"
    by (simp add: ids_at_def postings_of_def scenario_index_values)
  have i0: "ids_at scenario_index [(latin ''cat''), (latin ''sat'')] [0, 0] = [1, 1]"
    by (simp add: ids_at_def postings_of_def scenario_index_values)
  note t = iteration_advances [OF h1 h2 h3, of "[1]", unfolded i1]
  have "\<not> (\<forall>x\<in>set [3, 2::nat]. \<forall>y\<in>set [3, 2]. x = y)" by simp
  with t obtain p where p: "p < length [1::nat, 1]" "[3, 2::nat] ! p = Min (set [3, 2])"
    "iteration scenario_index [(latin ''cat''), (latin ''sat'')] [1, 1] [1] =
       Continue ([1, 1][p := [1, 1] ! p + 1]) [1]"
    by blast
  from p(1,2) have "p = 1" by (cases p) auto
  with p(3) have a: "iteration scenario_index [(latin ''cat''), (latin ''sat'')] [1, 1] [1] = Continue [1, 2] [1]"
    by simp
  note u = iteration_advances [OF h1 h2 h4, of "[]", unfolded i0]
  have "\<forall>x\<in>set [1, 1::nat]. \<forall>y\<in>set [1, 1]. x = y" by simp
  with u have b: "iteration scenario_index [(latin ''cat''), (latin ''sat'')] [0, 0] [] = Continue [1, 1] [1]"
    by simp
  from scenario_index_values(2,3) h3 i1 i0 a b show ?thesis by blast
qed

subsection \<open>A query of one term\<close>

lemma search_loop_single:
  assumes w: "idx w = Some l"
  shows "search_loop idx [w] [c] res = Some (Inr (res @ drop c l))"
proof (induction "length l - c" arbitrary: c res rule: less_induct)
  case less
  have present: "\<forall>v\<in>set [w]. idx v \<noteq> None" using w by simp
  have len: "length [c] = length [w]" by simp
  note out = iteration_outcome [OF len _ present, simplified]
  have R: "rests idx [w] [c] = [drop c l]"
    by (simp add: rests_def postings_of_def w)
  show ?case
  proof (cases "c < length l")
    case False
    then have "[] \<in> set (rests idx [w] [c])" by (simp add: R)
    from out(1) [OF this] False show ?thesis
      by (simp add: search_loop.simps [of idx "[w]" "[c]"])
  next
    case True
    then have full: "[] \<notin> set (rests idx [w] [c])" by (simp add: R)
    have same: "all_same (map hd (rests idx [w] [c]))"
      by (simp add: R all_same_def)
    have it: "iteration idx [w] [c] res = Continue [Suc c] (res @ [l ! c])"
      using out(2) [OF full same, of res] True by (simp add: R hd_drop_conv_nth)
    have "search_loop idx [w] [Suc c] (res @ [l ! c]) = Some (Inr ((res @ [l ! c]) @ drop (Suc c) l))"
      using less [of "Suc c"] True by simp
    then show ?thesis
      using True by (simp add: search_loop.simps [of idx "[w]" "[c]"] it Cons_nth_drop_Suc)
  qed
qed

lemma search_words_single: "idx w = Some l \<Longrightarrow> search_words idx [w] = Some (Inr l)"
  using search_loop_single [of idx w l 0 "[]"]
  by (simp add: search_words_def)

lemma distinct_singleton:
  assumes "distinct xs" and "set xs = {w}"
  shows "xs = [w]"
proof -
  have "length xs = card (set xs)" using assms(1) by (simp add: distinct_card)
  then have "length xs = Suc 0" using assms(2) by simp
  then obtain x where "xs = [x]" by (auto simp: length_Suc_conv)
  with assms(2) show ?thesis by simp
qed

lemma iterates_single: "iterates order {w} \<Longrightarrow> order {w} = [w]"
  by (simp add: iterates_def distinct_singleton)

text \<open>
  C3, as amended. In the index built from the documents \<open>docs\<close>, a term \<open>T\<close> that occurs
  in the index and is its own tokenization (tokenizing \<open>T\<close> yields the one term \<open>T\<close>) is
  found by the one-term query \<open>T\<close> in exactly the documents that contain it: the result
  has the identifiers of the documents of which \<open>T\<close> is a token and no others, and when
  every identifier was added at most once, the result has no duplicates.
\<close>

theorem single_term_search:
  assumes "docs_iterated order docs"
    and "iterates order (parse_text_to_word T)"
    and "build order docs T \<noteq> None"
    and "parse_text_to_word T = {T}"
  shows "\<exists>r. search order (build order docs) T = Some (Inr r) \<and>
           set r = {d. \<exists>text. (d, text) \<in> set docs \<and> T \<in> parse_text_to_word text} \<and>
           (distinct (map fst docs) \<longrightarrow> distinct r)"
proof -
  from assms(3) obtain l where l: "build order docs T = Some l" by auto
  from assms(2,4) have "order (parse_text_to_word T) = [T]"
    using iterates_single by simp
  then have s: "search order (build order docs) T = Some (Inr l)"
    using search_words_single [of "build order docs" T l] l by (simp add: search_def)
  from l have lp: "l = postings docs T"
    by (simp add: build_apply [OF assms(1)] split: if_splits)
  have "set l = {d. \<exists>text. (d, text) \<in> set docs \<and> T \<in> parse_text_to_word text}"
    unfolding lp by (rule set_postings)
  moreover have "distinct (map fst docs) \<longrightarrow> distinct l"
    unfolding lp using postings_distinct by blast
  ultimately show ?thesis using s by blast
qed

lemma scenario_docs_iterated: "docs_iterated scenario_order scenario_docs"
  by (auto simp: docs_iterated_def scenario_docs_def scenario_tokens iterates_def
      scenario_order_def ranked_def)

theorem single_term_search_witness:
  "docs_iterated scenario_order scenario_docs \<and>
   iterates scenario_order (parse_text_to_word (latin ''cat'')) \<and>
   build scenario_order scenario_docs (latin ''cat'') \<noteq> None \<and>
   parse_text_to_word (latin ''cat'') = {latin ''cat''} \<and>
   distinct (map fst scenario_docs) \<and>
   (\<exists>r. search scenario_order (build scenario_order scenario_docs) (latin ''cat'') = Some (Inr r) \<and>
        set r = {d. \<exists>text. (d, text) \<in> set scenario_docs \<and>
                      latin ''cat'' \<in> parse_text_to_word text} \<and>
        distinct r)"
proof -
  have h2: "iterates scenario_order (parse_text_to_word (latin ''cat''))"
    by (simp add: scenario_tokens iterates_def scenario_order_def ranked_def)
  have h3: "build scenario_order scenario_docs (latin ''cat'') \<noteq> None"
    using scenario_index_values(2) by (simp add: scenario_index_def)
  have h4: "distinct (map fst scenario_docs)"
    by (simp add: scenario_docs_def)
  note h5 = scenario_tokens(5)
  from single_term_search [OF scenario_docs_iterated h2 h3 h5] h4 scenario_docs_iterated h2 h3 h5
  show ?thesis by blast
qed

lemma dotted_tokens:
  "parse_text_to_word (Capital_I_dot # latin ''stanbul'') = {dotted_term}"
  "parse_text_to_word (Capital_I_dot # latin ''stanbul b'') = {dotted_term, latin ''b''}"
  "parse_text_to_word dotted_term = {latin ''i'', latin ''stanbul''}"
  "parse_text_to_word (dotted_term @ space # latin ''b'')
     = {latin ''i'', latin ''stanbul'', latin ''b''}"
  by (simp_all add: parse_text_to_word_def word_list_def lower_def re_sub_def
      is_word_def is_alnum_latin_def lower_latin_def latin_def space_def dotted_term_def)

lemma dotted_distinct:
  "dotted_term \<noteq> latin ''i''" "dotted_term \<noteq> latin ''stanbul''" "dotted_term \<noteq> latin ''b''"
  "latin ''i'' \<noteq> dotted_term" "latin ''stanbul'' \<noteq> dotted_term" "latin ''b'' \<noteq> dotted_term"
  by (simp_all add: dotted_term_def latin_def)

text \<open>
  C3, as stated, fails for a term that is not its own tokenization. After
  \<^verbatim>\<open>process_corpus(1, t)\<close>, where \<open>t\<close> is U+0130 followed by \<^verbatim>\<open>stanbul\<close> the index holds the term \<open>i\<close>, U+0307,
  \<open>stanbul\<close> with the postings list \<open>[1]\<close>, because the lower-case form of U+0130 is \<open>i\<close>
  followed by U+0307. The query of that term is tokenized again: U+0307 is not a word
  character and becomes a space, the query words are \<open>i\<close> and \<open>stanbul\<close>, neither is in the
  index, and the search returns the empty result although document 1 contains the term.
\<close>

theorem single_term_counterexample:
  "parse_text_to_word (Capital_I_dot # latin ''stanbul'') = {dotted_term} \<and>
   build dotted_order dotted_docs dotted_term = Some [1] \<and>
   parse_text_to_word dotted_term = {latin ''i'', latin ''stanbul''} \<and>
   search dotted_order (build dotted_order dotted_docs) dotted_term = Some (Inr []) \<and>
   search (ranked [latin ''stanbul'', latin ''i''])
     (build dotted_order dotted_docs) dotted_term = Some (Inr [])"
  by (simp add: dotted_tokens dotted_distinct dotted_docs_def dotted_order_def build_def
      process_corpus_def ranked_def add_posting_def search_def search_words_def)

subsection \<open>Documents added with increasing identifiers\<close>

lemma postings_of_build:
  "docs_iterated order docs \<Longrightarrow> postings_of (build order docs) w = postings docs w"
  by (simp add: postings_of_def build_apply)

lemma build_sorted:
  "docs_iterated order docs \<Longrightarrow> sorted_wrt (<) (map fst docs) \<Longrightarrow>
   sorted_wrt (<) (postings_of (build order docs) w)"
  by (simp add: postings_of_build postings_sorted)

lemma search_increasing:
  assumes it: "docs_iterated order docs" and inc: "sorted_wrt (<) (map fst docs)"
    and ne: "parse_text_to_word query \<noteq> {}"
    and ord: "iterates order (parse_text_to_word query)"
    and present: "\<forall>w\<in>parse_text_to_word query. build order docs w \<noteq> None"
  shows "\<exists>r. search order (build order docs) query = Some (Inr r) \<and> sorted_wrt (<) r \<and>
    set r = {d. \<forall>w\<in>parse_text_to_word query. d \<in> set (postings_of (build order docs) w)}"
proof -
  let ?ws = "order (parse_text_to_word query)"
  let ?idx = "build order docs"
  from iterates_words [OF ord ne] have wne: "?ws \<noteq> []"
    and ws: "set ?ws = parse_text_to_word query" by simp_all
  have p: "\<forall>w\<in>set ?ws. ?idx w \<noteq> None" using present ws by simp
  have s: "\<forall>w\<in>set ?ws. sorted_wrt (<) (postings_of ?idx w)"
    using build_sorted [OF it inc] by simp
  from search_words_sorted [OF wne p s] show ?thesis
    by (simp add: search_def ws)
qed

text \<open>
  C10. When the documents are added with strictly increasing identifiers (so each
  identifier is added once), a query with at least one term, all of whose terms are in
  the index, returns exactly the identifiers that occur in the postings lists of all of
  its terms, without duplicates and in increasing order.
\<close>

theorem increasing_ids_intersection:
  assumes "docs_iterated order docs" and "sorted_wrt (<) (map fst docs)"
    and "parse_text_to_word query \<noteq> {}"
    and "iterates order (parse_text_to_word query)"
    and "\<forall>w\<in>parse_text_to_word query. build order docs w \<noteq> None"
  shows "\<exists>r. search order (build order docs) query = Some (Inr r) \<and>
    distinct r \<and> sorted_wrt (<) r \<and>
    set r = {d. \<forall>w\<in>parse_text_to_word query. d \<in> set (postings_of (build order docs) w)}"
proof -
  from search_increasing [OF assms] obtain r where
    r: "search order (build order docs) query = Some (Inr r)" "sorted_wrt (<) r"
    "set r = {d. \<forall>w\<in>parse_text_to_word query. d \<in> set (postings_of (build order docs) w)}"
    by blast
  from r(2) have "distinct r" by (simp add: strict_sorted_iff)
  with r show ?thesis by blast
qed

theorem increasing_ids_intersection_witness:
  "docs_iterated scenario_order scenario_docs \<and> sorted_wrt (<) (map fst scenario_docs) \<and>
   parse_text_to_word (latin ''cat sat'') \<noteq> {} \<and>
   iterates scenario_order (parse_text_to_word (latin ''cat sat'')) \<and>
   build scenario_order scenario_docs (latin ''cat'') = Some [1, 3] \<and>
   build scenario_order scenario_docs (latin ''sat'') = Some [1, 2] \<and>
   search scenario_order (build scenario_order scenario_docs) (latin ''cat sat'') = Some (Inr [1])"
proof -
  have h2: "sorted_wrt (<) (map fst scenario_docs)"
    by (simp add: scenario_docs_def)
  have h3: "parse_text_to_word (latin ''cat sat'') \<noteq> {}"
    by (simp add: scenario_tokens)
  have h4: "iterates scenario_order (parse_text_to_word (latin ''cat sat''))"
    by (simp add: scenario_tokens iterates_def scenario_order_def ranked_def)
  have h5: "\<forall>w\<in>parse_text_to_word (latin ''cat sat''). build scenario_order scenario_docs w \<noteq> None"
    using scenario_index_values by (simp add: scenario_tokens scenario_index_def)
  from increasing_ids_intersection [OF scenario_docs_iterated h2 h3 h4 h5]
  obtain r where r: "search scenario_order (build scenario_order scenario_docs) (latin ''cat sat'') = Some (Inr r)"
    "distinct r" "sorted_wrt (<) r"
    "set r = {d. \<forall>w\<in>parse_text_to_word (latin ''cat sat''). 
                d \<in> set (postings_of (build scenario_order scenario_docs) w)}"
    by blast
  have "set r = {1}"
    unfolding r(4) using scenario_index_values
    by (auto simp: scenario_tokens postings_of_def scenario_index_def)
  with r(2) have "r = [1]" by (rule distinct_singleton)
  moreover have "build scenario_order scenario_docs (latin ''cat'') = Some [1, 3]"
    and "build scenario_order scenario_docs (latin ''sat'') = Some [1, 2]"
    using scenario_index_values by (simp_all add: scenario_index_def)
  ultimately show ?thesis using r(1) scenario_docs_iterated h2 h3 h4 by blast
qed

text \<open>
  C1, as amended. In an index built by adding documents with strictly increasing
  identifiers, for two terms that are both in the index and whose query, the one followed
  by a space and the other, is tokenized into just these two terms, the query returns,
  without duplicates, exactly the identifiers that the postings lists of both hold. In
  every index, a query one of whose terms is missing from the index returns the empty
  result.
\<close>

theorem and_semantics:
  assumes "docs_iterated order docs" and "sorted_wrt (<) (map fst docs)"
  shows "(build order docs T1 = Some l1 \<and> build order docs T2 = Some l2 \<and>
          parse_text_to_word (T1 @ [space] @ T2) = {T1, T2} \<and>
          iterates order (parse_text_to_word (T1 @ [space] @ T2)) \<longrightarrow>
            (\<exists>r. search order (build order docs) (T1 @ [space] @ T2) = Some (Inr r) \<and>
                 distinct r \<and> set r = set l1 \<inter> set l2)) \<and>
         (iterates order (parse_text_to_word query) \<and>
          (\<exists>w\<in>parse_text_to_word query. idx w = None) \<longrightarrow>
            search order idx query = Some (Inr []))"
proof (intro conjI impI)
  assume a: "build order docs T1 = Some l1 \<and> build order docs T2 = Some l2 \<and>
          parse_text_to_word (T1 @ [space] @ T2) = {T1, T2} \<and>
          iterates order (parse_text_to_word (T1 @ [space] @ T2))"
  let ?q = "T1 @ [space] @ T2"
  from a have tok: "parse_text_to_word ?q = {T1, T2}" by blast
  have ne: "parse_text_to_word ?q \<noteq> {}" using tok by simp
  have present: "\<forall>w\<in>parse_text_to_word ?q. build order docs w \<noteq> None"
    using a tok by simp
  from a have ord: "iterates order (parse_text_to_word ?q)" by blast
  from search_increasing [OF assms ne ord present] obtain r where
    r: "search order (build order docs) ?q = Some (Inr r)" "sorted_wrt (<) r"
    "set r = {d. \<forall>w\<in>parse_text_to_word ?q. d \<in> set (postings_of (build order docs) w)}"
    by blast
  from r(2) have "distinct r" by (simp add: strict_sorted_iff)
  moreover have "set r = set l1 \<inter> set l2"
    unfolding r(3) tok using a by (auto simp: postings_of_def)
  ultimately show "\<exists>r. search order (build order docs) ?q = Some (Inr r) \<and>
                 distinct r \<and> set r = set l1 \<inter> set l2"
    using r(1) by blast
next
  assume b: "iterates order (parse_text_to_word query) \<and>
          (\<exists>w\<in>parse_text_to_word query. idx w = None)"
  then have "set (order (parse_text_to_word query)) = parse_text_to_word query"
    by (simp add: iterates_def)
  with b have "\<exists>w\<in>set (order (parse_text_to_word query)). idx w = None" by simp
  from search_words_absent [OF this] show "search order idx query = Some (Inr [])"
    by (simp add: search_def)
qed

lemma cat_sat_query: "latin ''cat'' @ space # latin ''sat'' = latin ''cat sat''"
  by (simp add: latin_def space_def)

theorem and_semantics_witness:
  "docs_iterated scenario_order scenario_docs \<and> sorted_wrt (<) (map fst scenario_docs) \<and>
   build scenario_order scenario_docs (latin ''cat'') = Some [1, 3] \<and>
   build scenario_order scenario_docs (latin ''sat'') = Some [1, 2] \<and>
   parse_text_to_word (latin ''cat'' @ [space] @ latin ''sat'') = {latin ''cat'', latin ''sat''} \<and>
   iterates scenario_order (parse_text_to_word (latin ''cat'' @ [space] @ latin ''sat'')) \<and>
   (\<exists>r. search scenario_order (build scenario_order scenario_docs)
           (latin ''cat'' @ [space] @ latin ''sat'')
           = Some (Inr r) \<and> distinct r \<and> set r = set [1, 3] \<inter> set [1, 2]) \<and>
   iterates scenario_order (parse_text_to_word (latin ''cat fish'')) \<and>
   (\<exists>w\<in>parse_text_to_word (latin ''cat fish''). scenario_index w = None) \<and>
   search scenario_order scenario_index (latin ''cat fish'') = Some (Inr [])"
proof -
  have h2: "sorted_wrt (<) (map fst scenario_docs)"
    by (simp add: scenario_docs_def)
  have c: "build scenario_order scenario_docs (latin ''cat'') = Some [1, 3]"
    and s: "build scenario_order scenario_docs (latin ''sat'') = Some [1, 2]"
    using scenario_index_values by (simp_all add: scenario_index_def)
  have p: "parse_text_to_word (latin ''cat'' @ [space] @ latin ''sat'')
      = {latin ''cat'', latin ''sat''}"
    by (simp add: cat_sat_query scenario_tokens)
  have o: "iterates scenario_order (parse_text_to_word (latin ''cat'' @ [space] @ latin ''sat''))"
    unfolding p by (simp add: iterates_def scenario_order_def ranked_def)
  have tf: "parse_text_to_word (latin ''cat fish'') = {latin ''cat'', latin ''fish''}"
    by (simp add: parse_text_to_word_def word_list_def lower_def re_sub_def
      is_word_def is_alnum_latin_def lower_latin_def latin_def space_def)
  have o2: "iterates scenario_order (parse_text_to_word (latin ''cat fish''))"
    by (simp add: tf iterates_def scenario_order_def ranked_def)
  have m: "\<exists>w\<in>parse_text_to_word (latin ''cat fish''). scenario_index w = None"
    by (simp add: tf scenario_index_values)
  note t = and_semantics [OF scenario_docs_iterated h2,
      of "latin ''cat''" "[1, 3]" "latin ''sat''" "[1, 2]" "latin ''cat fish''" scenario_index]
  from t c s p o have 1: "\<exists>r. search scenario_order (build scenario_order scenario_docs)
      (latin ''cat'' @ [space] @ latin ''sat'') = Some (Inr r) \<and> distinct r \<and>
      set r = set [1, 3] \<inter> set [1, 2]"
    by blast
  from t o2 m have 2: "search scenario_order scenario_index (latin ''cat fish'') = Some (Inr [])"
    by blast
  from scenario_docs_iterated h2 c s p o 1 o2 m 2 show ?thesis by blast
qed

lemma unordered_tokens:
  "parse_text_to_word (latin ''a'') = {latin ''a''}"
  "parse_text_to_word (latin ''a b'') = {latin ''a'', latin ''b''}"
  by (simp_all add: parse_text_to_word_def word_list_def lower_def re_sub_def
      is_word_def is_alnum_latin_def lower_latin_def latin_def space_def)

lemma a_b_query: "latin ''a'' @ space # latin ''b'' = latin ''a b''"
  by (simp add: latin_def space_def)

text \<open>
  C1, as stated, fails in two ways. First, when the identifiers are not added in
  increasing order: after \<^verbatim>\<open>process_corpus(3, "a")\<close> and \<^verbatim>\<open>process_corpus(1, "a b")\<close>
  the postings lists are \<open>[3, 1]\<close> for \<open>a\<close> and \<open>[1]\<close> for \<open>b\<close>, both terms are in the index
  and document 1 holds both, yet the query \<open>a b\<close> returns the empty result, in whichever
  order the set of query words is visited. Second, when a term is not its own
  tokenization: after \<^verbatim>\<open>process_corpus(1, t)\<close>, where \<open>t\<close> is U+0130 followed by \<^verbatim>\<open>stanbul b\<close> the index holds the term
  \<open>i\<close>, U+0307, \<open>stanbul\<close> and the term \<open>b\<close>, both with the postings list \<open>[1]\<close>; the query
  made of the two is tokenized into \<open>i\<close>, \<open>stanbul\<close> and \<open>b\<close>, of which \<open>i\<close> is not in the
  index, and the search returns the empty result.
\<close>

theorem and_semantics_counterexample:
  "build (ranked [latin ''a'', latin ''b'']) unordered_docs (latin ''a'') = Some [3, 1] \<and>
   build (ranked [latin ''a'', latin ''b'']) unordered_docs (latin ''b'') = Some [1] \<and>
   set [3, 1 :: nat] \<inter> set [1] = {1} \<and>
   search (ranked [latin ''a'', latin ''b''])
     (build (ranked [latin ''a'', latin ''b'']) unordered_docs)
     (latin ''a'' @ [space] @ latin ''b'') = Some (Inr []) \<and>
   search (ranked [latin ''b'', latin ''a''])
     (build (ranked [latin ''a'', latin ''b'']) unordered_docs)
     (latin ''a'' @ [space] @ latin ''b'') = Some (Inr []) \<and>
   build dotted_order dotted_docs_b dotted_term = Some [1] \<and>
   build dotted_order dotted_docs_b (latin ''b'') = Some [1] \<and>
   search dotted_order (build dotted_order dotted_docs_b) (dotted_term @ [space] @ latin ''b'')
     = Some (Inr [])"
  by (simp add: unordered_docs_def build_def process_corpus_def unordered_tokens ranked_def
      add_posting_def search_def search_words_def search_loop.simps iteration_def
      all_same_def a_b_query dotted_tokens dotted_distinct dotted_docs_b_def
      dotted_order_def)

subsection \<open>The tokenizer and the specification's wording\<close>

lemma word_not_space: "is_word c \<Longrightarrow> \<not> is_space c"
  by (cases c) (auto simp: is_word_def is_alnum_latin_def is_space_latin_def Let_def)

lemma space_is_space: "is_space space"
  by (simp add: space_def is_space_latin_def)

lemma lower_char_is_space: "is_space c \<Longrightarrow> lower_char c = [c]"
  by (cases c) (auto simp: is_space_latin_def lower_latin_def Let_def)

lemma lower_word_no_space: "is_word c \<Longrightarrow> d \<in> set (lower_char c) \<Longrightarrow> \<not> is_space d"
proof (cases c)
  case (Latin a)
  assume "is_word c" "d \<in> set (lower_char c)"
  with Latin have "is_word d" using is_word_lower_latin [of a] by simp
  then show ?thesis by (rule word_not_space)
next
  case Capital_I_dot
  assume "d \<in> set (lower_char c)"
  with Capital_I_dot show ?thesis by (auto simp: is_space_latin_def)
next
  case Combining_dot
  assume "d \<in> set (lower_char c)"
  with Combining_dot show ?thesis by simp
qed

lemma split_space_squash:
  "split_space (map (\<lambda>c. if is_space c then space else c) s) = split_on is_space s"
proof (induction s)
  case Nil
  then show ?case by simp
next
  case (Cons c s)
  then show ?case using space_is_space by (cases "is_space c") auto
qed

lemma substitute_lower_squash:
  "lower_char (if is_word c \<or> c = space then c else space) =
   map (\<lambda>d. if is_space d then space else d)
     (lower_char (if is_word c \<or> is_space c then c else space))"
proof (cases "is_word c")
  case True
  then have "\<forall>d\<in>set (lower_char c). \<not> is_space d" using lower_word_no_space by blast
  then have "map (\<lambda>d. if is_space d then space else d) (lower_char c) = lower_char c"
    by (auto intro!: map_idI)
  with True show ?thesis by simp
next
  case False
  show ?thesis
  proof (cases "is_space c")
    case True
    with False show ?thesis
      by (simp add: lower_char_is_space lower_char_space space_is_space)
  next
    case nsp: False
    then have "c \<noteq> space" using space_is_space by auto
    with False nsp show ?thesis by (simp add: lower_char_space space_is_space)
  qed
qed

lemma word_list_split_on:
  "word_list text =
   filter (\<lambda>w. w \<noteq> [])
     (split_on is_space
       (lower (map (\<lambda>c. if is_word c \<or> is_space c then c else space) text)))"
proof -
  have "lower (re_sub s) =
      map (\<lambda>c. if is_space c then space else c)
        (lower (map (\<lambda>c. if is_word c \<or> is_space c then c else space) s))" for s
    unfolding lower_def re_sub_def
    by (induction s) (simp_all add: substitute_lower_squash)
  then show ?thesis by (simp only: word_list_def split_space_squash)
qed

text \<open>
  C8, as amended. The tokenizer replaces every character that is not alphanumeric, an
  underscore or whitespace with a single space, case-folds to lowercase, splits on
  whitespace, drops the empty tokens and returns the set of the tokens that remain. It
  is a total function, so it never errors, and the empty input yields the empty set.
\<close>

theorem tokenizer_keeps_word_characters:
  "parse_text_to_word text = tokenize_keeping is_word text \<and> parse_text_to_word [] = {}"
proof
  show "parse_text_to_word text = tokenize_keeping is_word text"
    unfolding parse_text_to_word_def tokenize_keeping_def word_list_split_on ..
  show "parse_text_to_word [] = {}"
    by (simp add: parse_text_to_word_def word_list_empty)
qed

theorem tokenizer_keeps_word_characters_witness:
  "parse_text_to_word (latin ''Hello, big_World!'') = {(latin ''hello''), (latin ''big_world'')} \<and>
   tokenize_keeping is_word (latin ''Hello, big_World!'') = {(latin ''hello''), (latin ''big_world'')}"
proof -
  have "parse_text_to_word (latin ''Hello, big_World!'') = {(latin ''hello''), (latin ''big_world'')}"
    by (simp add: parse_text_to_word_def word_list_def lower_def re_sub_def
      is_word_def is_alnum_latin_def lower_latin_def latin_def space_def char_of_def bit_Suc_0_iff)
  with tokenizer_keeps_word_characters [of "(latin ''Hello, big_World!'')"] show ?thesis by simp
qed

text \<open>
  C8, as stated, fails on the underscore: it is neither alphanumeric nor whitespace, so
  the specification's tokenizer replaces it with a space and splits \<open>a_b\<close> in two, while
  \<^verbatim>\<open>\w\<close> counts it as a word character and the code keeps \<open>a_b\<close> whole.
\<close>

theorem tokenizer_underscore_counterexample:
  "parse_text_to_word (latin ''a_b'') = {(latin ''a_b'')} \<and> spec_tokenize (latin ''a_b'') = {(latin ''a''), (latin ''b'')} \<and>
   parse_text_to_word (latin ''a_b'') \<noteq> spec_tokenize (latin ''a_b'')"
  by (simp add: parse_text_to_word_def word_list_def lower_def re_sub_def
      is_word_def is_alnum_latin_def lower_latin_def latin_def space_def spec_tokenize_def tokenize_keeping_def
      is_space_latin_def)

subsection \<open>A query without terms\<close>

lemma iterates_empty: "iterates order {} \<Longrightarrow> order {} = []"
  by (simp add: iterates_def)

text \<open>
  C2. The claim is that a query without any term returns the empty result and does not
  fail. The code does not: with no query word the presence check passes, the first pass
  of the loop finds the identifiers under the cursors all equal, there being none, and
  reads \<^verbatim>\<open>current_ids[0]\<close> of the empty list. So \<^verbatim>\<open>search\<close> raises IndexError on every
  query without terms, whatever the index holds.
\<close>

theorem empty_query_raises:
  assumes "parse_text_to_word query = {}"
    and "iterates order (parse_text_to_word query)"
  shows "search order idx query = Some (Inl IndexError)"
  using assms by (simp add: search_def iterates_empty search_words_no_words)

theorem empty_query_raises_witness:
  "parse_text_to_word [] = {} \<and> iterates scenario_order (parse_text_to_word []) \<and>
   search scenario_order scenario_index [] = Some (Inl IndexError)"
proof -
  have h1: "parse_text_to_word [] = {}"
    by (simp add: parse_text_to_word_def word_list_empty)
  have h2: "iterates scenario_order (parse_text_to_word [])"
    by (simp add: h1 iterates_def scenario_order_def ranked_def)
  from empty_query_raises [OF h1 h2, of scenario_index] h1 h2 show ?thesis by blast
qed

subsection \<open>The search of the plain engine always returns\<close>

lemma search_words_total: "\<exists>out. search_words idx ws = Some out"
proof (cases "\<exists>w\<in>set ws. idx w = None")
  case True
  then show ?thesis by (simp add: search_words_absent)
next
  case False
  then have present: "\<forall>w\<in>set ws. idx w \<noteq> None" by simp
  show ?thesis
  proof (cases "ws = []")
    case True
    then show ?thesis by (simp add: search_words_no_words)
  next
    case False
    from search_words_returns [OF this present] show ?thesis by blast
  qed
qed

lemma search_total: "\<exists>out. search order idx q = Some out"
  by (simp add: search_def search_words_total)

lemma run_plain_total: "\<exists>outs. run_plain order idx qs = Some outs"
proof (induction qs)
  case Nil
  then show ?case by simp
next
  case (Cons q qs)
  from search_total [of order idx q] obtain out where "search order idx q = Some out" ..
  with Cons show ?case by auto
qed

subsection \<open>The cache\<close>

lemma has_iff: "has c q = (\<exists>r. map_of (entries c) q = Some r)"
  by (simp add: has_def lru_contains_def)

lemma get_hit:
  "map_of (entries c) q = Some r \<Longrightarrow>
   get c q = Inr (r, c\<lparr>entries := (q, r) # filter (\<lambda>e. fst e \<noteq> q) (entries c)\<rparr>)"
  by (simp add: get_def lru_getitem_def)

lemma set_cache_entries:
  "set (entries (set_cache c q r)) \<subseteq> insert (q, r) (set (entries c))"
  by (auto simp: set_cache_def lru_setitem_def dest: in_set_takeD)

lemma set_cache_front:
  "0 < capacity c \<Longrightarrow> \<exists>es. entries (set_cache c q r) = (q, r) # es"
  by (cases "capacity c") (auto simp: set_cache_def lru_setitem_def)

lemma set_cache_capacity: "capacity (set_cache c q r) = capacity c"
  by (simp add: set_cache_def lru_setitem_def)

subsection \<open>Searching with the cache\<close>

lemma search_cached_hit:
  "map_of (entries (cache e)) q = Some r \<Longrightarrow>
   search_cached order e q =
     Some (Inr r, e\<lparr>cache := (cache e)\<lparr>entries :=
        (q, r) # filter (\<lambda>x. fst x \<noteq> q) (entries (cache e))\<rparr>\<rparr>)"
  by (simp add: search_cached_def has_iff get_hit)

lemma search_cached_miss:
  "map_of (entries (cache e)) q = None \<Longrightarrow>
   search_cached order e q =
     (case search order (inverted_index e) q of
        None \<Rightarrow> None
      | Some (Inl err) \<Rightarrow> Some (Inl err, e)
      | Some (Inr result) \<Rightarrow>
          Some (Inr (length (store e)),
                e\<lparr>cache := set_cache (cache e) q (length (store e)),
                  store := store e @ [result]\<rparr>))"
  by (simp add: search_cached_def has_iff Let_def split: option.splits sum.splits)

lemma cache_consistent_iff:
  "cache_consistent order e =
     (\<forall>(q, r)\<in>set (entries (cache e)). r < length (store e) \<and>
        search order (inverted_index e) q = Some (Inr (store e ! r)))"
  by (simp add: cache_consistent_def list_all_iff)

lemma search_cached_step:
  assumes ok: "cache_consistent order e"
    and out: "search order (inverted_index e) q = Some out"
  shows "\<exists>out' e'. search_cached order e q = Some (out', e') \<and> seen e' out' = out \<and>
           cache_consistent order e' \<and> inverted_index e' = inverted_index e \<and>
           capacity (cache e') = capacity (cache e)"
proof (cases "map_of (entries (cache e)) q")
  case (Some r)
  then have mem: "(q, r) \<in> set (entries (cache e))" by (rule map_of_SomeD)
  with ok have r: "r < length (store e)"
    "search order (inverted_index e) q = Some (Inr (store e ! r))"
    by (auto simp: cache_consistent_iff)
  let ?e' = "e\<lparr>cache := (cache e)\<lparr>entries :=
        (q, r) # filter (\<lambda>x. fst x \<noteq> q) (entries (cache e))\<rparr>\<rparr>"
  have "cache_consistent order ?e'"
    using ok mem by (auto simp: cache_consistent_iff)
  moreover have "seen ?e' (Inr r) = out" using r(2) out by (simp add: seen_def)
  ultimately show ?thesis by (simp add: search_cached_hit [OF Some])
next
  case None
  note miss = search_cached_miss [OF None, of order]
  show ?thesis
  proof (cases out)
    case (Inl err)
    with out ok show ?thesis by (simp add: miss seen_def)
  next
    case (Inr result)
    let ?r = "length (store e)"
    let ?e' = "e\<lparr>cache := set_cache (cache e) q ?r, store := store e @ [result]\<rparr>"
    have "cache_consistent order ?e'"
      unfolding cache_consistent_iff
    proof (clarify)
      fix q' r' assume "(q', r') \<in> set (entries (cache ?e'))"
      then have "(q', r') \<in> insert (q, ?r) (set (entries (cache e)))"
        using set_cache_entries [of "cache e" q ?r] by auto
      then show "r' < length (store ?e') \<and>
          search order (inverted_index ?e') q' = Some (Inr (store ?e' ! r'))"
      proof
        assume "(q', r') = (q, ?r)"
        then show ?thesis using out Inr by simp
      next
        assume "(q', r') \<in> set (entries (cache e))"
        with ok have "r' < length (store e)"
          "search order (inverted_index e) q' = Some (Inr (store e ! r'))"
          by (auto simp: cache_consistent_iff)
        then show ?thesis by (simp add: nth_append)
      qed
    qed
    moreover have "seen ?e' (Inr ?r) = out" using Inr by (simp add: seen_def)
    ultimately show ?thesis
      using out Inr by (simp add: miss set_cache_capacity)
  qed
qed

lemma run_cached_plain:
  "cache_consistent order e \<Longrightarrow> run_cached order e qs = run_plain order (inverted_index e) qs"
proof (induction qs arbitrary: e)
  case Nil
  then show ?case by simp
next
  case (Cons q qs)
  from search_total [of order "inverted_index e" q]
  obtain out where out: "search order (inverted_index e) q = Some out" ..
  from search_cached_step [OF Cons.prems out] obtain out' e' where
    s: "search_cached order e q = Some (out', e')" "seen e' out' = out"
    "cache_consistent order e'" "inverted_index e' = inverted_index e" by blast
  from Cons.IH [OF s(3)] show ?case by (simp add: s out split: option.splits)
qed

lemma fresh_consistent: "cache_consistent order (engine_with_cache idx)"
  by (simp add: cache_consistent_def engine_with_cache_def lru_new_def)

text \<open>
  C6. On a fixed index, a sequence of queries put to the engine with the cache, starting
  from its empty cache, yields for each query what the engine without the cache returns
  for it on the same index, exceptions included, and every one of these searches returns.
\<close>

theorem cache_transparent:
  "run_cached order (engine_with_cache idx) qs = run_plain order idx qs \<and>
   (\<exists>outs. run_plain order idx qs = Some outs)"
  using run_cached_plain [OF fresh_consistent, of order idx qs] run_plain_total [of order idx qs]
  by (simp add: engine_with_cache_def)

subsection \<open>Searches of the concrete scenario\<close>

lemma scenario_more_tokens:
  "parse_text_to_word [] = {}"
  "parse_text_to_word (latin ''fish'') = {(latin ''fish'')}"
  "parse_text_to_word (latin ''dog'') = {(latin ''dog'')}"
  "parse_text_to_word (latin ''sat'') = {(latin ''sat'')}"
  by (simp_all add: parse_text_to_word_def word_list_def lower_def re_sub_def
      is_word_def is_alnum_latin_def lower_latin_def latin_def space_def)

lemma scenario_searches:
  "search scenario_order scenario_index (latin ''cat'') = Some (Inr [1, 3])"
  "search scenario_order scenario_index (latin ''cat sat'') = Some (Inr [1])"
  "search scenario_order scenario_index (latin ''dog'') = Some (Inr [2])"
  "search scenario_order scenario_index (latin ''sat'') = Some (Inr [1, 2])"
  "search scenario_order scenario_index (latin ''fish'') = Some (Inr [])"
  "search scenario_order scenario_index [] = Some (Inl IndexError)"
  by (simp_all add: search_def scenario_tokens scenario_more_tokens scenario_order_def
      ranked_def search_words_def search_loop.simps iteration_def all_same_def
      scenario_index_values)

theorem cache_transparent_witness:
  "run_cached scenario_order (engine_with_cache scenario_index)
     [(latin ''cat''), (latin ''cat sat''), (latin ''cat''), [], (latin ''fish''), (latin ''dog''), (latin ''cat'')]
   = Some [Inr [1, 3], Inr [1], Inr [1, 3], Inl IndexError, Inr [], Inr [2], Inr [1, 3]]"
proof -
  have "run_plain scenario_order scenario_index
     [(latin ''cat''), (latin ''cat sat''), (latin ''cat''), [], (latin ''fish''), (latin ''dog''), (latin ''cat'')]
   = Some [Inr [1, 3], Inr [1], Inr [1, 3], Inl IndexError, Inr [], Inr [2], Inr [1, 3]]"
    by (simp add: scenario_searches)
  with cache_transparent [of scenario_order scenario_index
      "[(latin ''cat''), (latin ''cat sat''), (latin ''cat''), [], (latin ''fish''), (latin ''dog''), (latin ''cat'')]"]
  show ?thesis by simp
qed

subsection \<open>The cached list is the returned list\<close>

lemma search_cached_entry:
  assumes ok: "cache_consistent order e" and cap: "0 < capacity (cache e)"
    and s: "search_cached order e q = Some (Inr r, e1)"
  shows "map_of (entries (cache e1)) q = Some r \<and> r < length (store e1)"
proof (cases "map_of (entries (cache e)) q")
  case (Some r')
  then have mem: "(q, r') \<in> set (entries (cache e))" by (rule map_of_SomeD)
  with ok have "r' < length (store e)" by (auto simp: cache_consistent_iff)
  with s show ?thesis by (auto simp: search_cached_hit [OF Some])
next
  case None
  from set_cache_front [OF cap, of q "length (store e)"] obtain es where
    es: "entries (set_cache (cache e) q (length (store e))) = (q, length (store e)) # es" ..
  from s show ?thesis
    by (auto simp: search_cached_miss [OF None] es split: option.splits sum.splits)
qed

lemma search_cached_again:
  assumes "map_of (entries (cache e1)) q = Some r" and "r < length (store e1)"
  shows "\<exists>e2. search_cached order (mutate e1 r xs) q = Some (Inr r, e2) \<and> store e2 ! r = xs"
proof -
  have "map_of (entries (cache (mutate e1 r xs))) q = Some r"
    using assms(1) by (simp add: mutate_def)
  from search_cached_hit [OF this, of order] assms(2) show ?thesis
    by (simp add: mutate_def)
qed

text \<open>
  C9, as amended. The cache stores a reference to the list that \<open>search\<close> returned, not a
  copy. After a search of \<open>q\<close> on the engine with the cache has returned the list object
  \<open>r\<close>, the next search of \<open>q\<close> is a hit that returns the same object: the caller sees the
  original result when \<open>r\<close> was left alone, and the list \<open>xs\<close> when the caller has mutated
  \<open>r\<close> into \<open>xs\<close>.
\<close>

theorem cached_result_shared:
  assumes "cache_consistent order e" and "0 < capacity (cache e)"
    and "search_cached order e q = Some (Inr r, e1)"
  shows "(\<exists>e2. search_cached order e1 q = Some (Inr r, e2) \<and> store e2 ! r = store e1 ! r) \<and>
         (\<exists>e2. search_cached order (mutate e1 r xs) q = Some (Inr r, e2) \<and> store e2 ! r = xs)"
proof -
  from search_cached_entry [OF assms] have m: "map_of (entries (cache e1)) q = Some r"
    and r: "r < length (store e1)" by simp_all
  have "mutate e1 r (store e1 ! r) = e1" by (simp add: mutate_def)
  with search_cached_again [OF m r, of order "store e1 ! r"]
  have "\<exists>e2. search_cached order e1 q = Some (Inr r, e2) \<and> store e2 ! r = store e1 ! r"
    by simp
  with search_cached_again [OF m r, of order xs] show ?thesis by blast
qed

theorem cached_result_shared_witness:
  "0 < capacity (cache (engine_with_cache scenario_index)) \<and>
   search_cached scenario_order (engine_with_cache scenario_index) (latin ''cat'') =
     Some (Inr 0, \<lparr>inverted_index = scenario_index,
                   cache = \<lparr>capacity = 2, entries = [((latin ''cat''), 0)]\<rparr>, store = [[1, 3]]\<rparr>) \<and>
   (\<exists>e2. search_cached scenario_order
           (mutate \<lparr>inverted_index = scenario_index,
                   cache = \<lparr>capacity = 2, entries = [((latin ''cat''), 0)]\<rparr>, store = [[1, 3]]\<rparr>
              0 [1, 3, 99]) (latin ''cat'') = Some (Inr 0, e2) \<and>
         store e2 ! 0 = [1, 3, 99])"
proof -
  have h2: "0 < capacity (cache (engine_with_cache scenario_index))"
    by (simp add: engine_with_cache_def lru_new_def)
  have h3: "search_cached scenario_order (engine_with_cache scenario_index) (latin ''cat'') =
     Some (Inr 0, \<lparr>inverted_index = scenario_index,
                   cache = \<lparr>capacity = 2, entries = [((latin ''cat''), 0)]\<rparr>, store = [[1, 3]]\<rparr>)"
    by (simp add: search_cached_def has_def lru_contains_def engine_with_cache_def lru_new_def
        scenario_searches set_cache_def lru_setitem_def)
  from cached_result_shared [OF fresh_consistent h2 h3, of "[1, 3, 99]"] h2 h3
  show ?thesis by blast
qed

text \<open>
  C9, as stated, fails: the engine returns the very list object that it has put in the
  cache. The first search of \<open>cat\<close> returns the list \<open>[1, 3]\<close>; when the caller appends 99
  to it, the second search of \<open>cat\<close>, a cache hit, returns \<open>[1, 3, 99]\<close>.
\<close>

theorem cached_result_mutation_counterexample:
  "search_mutate_search scenario_order (engine_with_cache scenario_index) (latin ''cat'') [1, 3, 99]
   = Some (Inr [1, 3], Inr [1, 3, 99])"
  by (simp add: search_mutate_search_def search_cached_def has_def lru_contains_def
      get_def lru_getitem_def engine_with_cache_def lru_new_def scenario_searches
      set_cache_def lru_setitem_def mutate_def seen_def)

subsection \<open>Eviction for queries that return\<close>

lemma map_of_keys: "(map_of es q = None) = (q \<notin> set (map fst es))"
  by (simp add: map_of_eq_None_iff)

lemma search_cached_keys:
  assumes ok: "cache_consistent order e"
    and out: "search order (inverted_index e) q = Some (Inr l)"
  shows "\<exists>r e'. search_cached order e q = Some (Inr r, e') \<and> seen e' (Inr r) = Inr l \<and>
           cache_consistent order e' \<and> inverted_index e' = inverted_index e \<and>
           capacity (cache e') = capacity (cache e) \<and>
           cached_queries e' = touch (capacity (cache e)) q (cached_queries e) \<and>
           (q \<notin> set (cached_queries e) \<longrightarrow> r = length (store e))"
proof -
  from search_cached_step [OF ok out] obtain out' e' where
    s: "search_cached order e q = Some (out', e')" "seen e' out' = Inr l"
    "cache_consistent order e'" "inverted_index e' = inverted_index e"
    "capacity (cache e') = capacity (cache e)" by blast
  from s(2) obtain r where r: "out' = Inr r" by (cases out') (simp_all add: seen_def)
  have "cached_queries e' = touch (capacity (cache e)) q (cached_queries e) \<and>
        (q \<notin> set (cached_queries e) \<longrightarrow> r = length (store e))"
  proof (cases "map_of (entries (cache e)) q")
    case (Some r')
    then have "q \<in> set (map fst (entries (cache e)))"
      using map_of_keys [of "entries (cache e)" q] by simp
    moreover have "map fst (filter (\<lambda>x. fst x \<noteq> q) es) = filter (\<lambda>k. k \<noteq> q) (map fst es)"
      for es :: "(pystr \<times> ref) list"
      by (induction es) auto
    ultimately show ?thesis
      using s(1) by (auto simp: search_cached_hit [OF Some] cached_queries_def touch_def)
  next
    case None
    then have "q \<notin> set (map fst (entries (cache e)))"
      using map_of_keys [of "entries (cache e)" q] by simp
    moreover have "map fst (take n ((q, v) # es)) = take n (q # map fst es)"
      for n v and es :: "(pystr \<times> ref) list"
      using take_map [of n fst "(q, v) # es"] by simp
    ultimately show ?thesis
      using s(1) out r
      by (auto simp: search_cached_miss [OF None] cached_queries_def touch_def
          set_cache_def lru_setitem_def lru_contains_def None)
  qed
  with s r show ?thesis by blast
qed

lemma touch_length: "length ks \<le> n \<Longrightarrow> length (touch n q ks) \<le> n"
proof (cases "q \<in> set ks")
  case True
  assume "length ks \<le> n"
  moreover have "length (filter (\<lambda>k. k \<noteq> q) ks) < length ks"
    using True by (intro length_filter_less [of q]) auto
  ultimately show ?thesis using True by (simp add: touch_def)
next
  case False
  then show ?thesis by (simp add: touch_def)
qed

lemma touch_first:
  "0 < n \<Longrightarrow> distinct ks \<Longrightarrow> behind q0 {} (touch n q0 ks)"
proof -
  assume n: "0 < n" and d: "distinct ks"
  show ?thesis
  proof (cases "q0 \<in> set ks")
    case True
    then have "touch n q0 ks = [] @ q0 # filter (\<lambda>k. k \<noteq> q0) ks" by (simp add: touch_def)
    moreover have "distinct (q0 # filter (\<lambda>k. k \<noteq> q0) ks)" using d by simp
    ultimately show ?thesis unfolding behind_def by (metis append_Nil set_empty)
  next
    case False
    from n obtain m where m: "n = Suc m" by (cases n) auto
    from False have "touch n q0 ks = [] @ q0 # take m ks" by (simp add: touch_def m)
    moreover have "distinct (q0 # take m ks)"
      using d False by (auto dest: in_set_takeD)
    ultimately show ?thesis unfolding behind_def by (metis append_Nil set_empty)
  qed
qed

lemma touch_behind:
  assumes b: "behind q0 S ks" and q: "q \<notin> S" "q \<noteq> q0"
  shows "behind q0 (insert q S) (touch n q ks)"
proof (cases "q0 \<in> set ks")
  case False
  have "set (touch n q ks) \<subseteq> insert q (set ks)"
    by (auto simp: touch_def dest: in_set_takeD)
  with False q(2) show ?thesis unfolding behind_def by auto
next
  case True
  with b obtain pre post where ks: "ks = pre @ q0 # post" and pre: "set pre = S"
    and d: "distinct ks" unfolding behind_def by blast
  from q pre have qpre: "q \<notin> set pre" by simp
  show ?thesis
  proof (cases "q \<in> set ks")
    case hit: True
    have "filter (\<lambda>k. k \<noteq> q) pre = pre" using qpre by (auto simp: filter_id_conv)
    then have t: "touch n q ks = (q # pre) @ q0 # filter (\<lambda>k. k \<noteq> q) post"
      using hit q(2) by (simp add: touch_def ks)
    have "distinct ((q # pre) @ q0 # filter (\<lambda>k. k \<noteq> q) post)"
      using d qpre q(2) by (auto simp: ks)
    with t pre show ?thesis unfolding behind_def
      by (metis list.simps(15))
  next
    case miss: False
    then have t: "touch n q ks = take n ((q # pre) @ q0 # post)" by (simp add: touch_def ks)
    show ?thesis
    proof (cases "n \<le> length (q # pre)")
      case True
      then have "take n ((q # pre) @ q0 # post) = take n (q # pre)"
        unfolding take_append by simp
      then have "touch n q ks = take n (q # pre)" using t by simp
      then have "set (touch n q ks) \<subseteq> set (q # pre)" by (metis set_take_subset)
      moreover have "q0 \<notin> set (q # pre)" using d q(2) by (auto simp: ks)
      ultimately show ?thesis unfolding behind_def by blast
    next
      case False
      then obtain m where m: "n - length (q # pre) = Suc m" by (cases "n - length (q # pre)") auto
      have t': "touch n q ks = (q # pre) @ q0 # take m post"
        using False m unfolding t take_append by simp
      have "distinct ((q # pre) @ q0 # take m post)"
        using d miss q(2) by (auto simp: ks dest: in_set_takeD)
      with t' pre show ?thesis unfolding behind_def
        by (metis list.simps(15))
    qed
  qed
qed

lemma behind_evicted:
  assumes b: "behind q0 (set qs) ks" and d: "distinct qs" and len: "length ks \<le> length qs"
  shows "q0 \<notin> set ks"
proof
  assume "q0 \<in> set ks"
  with b obtain pre post where ks: "ks = pre @ q0 # post" and pre: "set pre = set qs"
    and dk: "distinct ks" unfolding behind_def by blast
  from dk have "distinct pre" by (simp add: ks)
  then have "length pre = card (set pre)" by (simp add: distinct_card)
  also have "\<dots> = length qs" using d pre by (simp add: distinct_card)
  finally show False using len by (simp add: ks)
qed

lemma touch_distinct: "distinct ks \<Longrightarrow> distinct (touch n q ks)"
  by (auto simp: touch_def dest: in_set_takeD)

lemma fold_touch_length: "length ks \<le> n \<Longrightarrow> length (fold (touch n) qs ks) \<le> n"
  by (induction qs arbitrary: ks) (simp_all add: touch_length)

lemma fold_touch_behind:
  "behind q0 S ks \<Longrightarrow> distinct qs \<Longrightarrow> set qs \<inter> S = {} \<Longrightarrow> q0 \<notin> set qs \<Longrightarrow>
   behind q0 (S \<union> set qs) (fold (touch n) qs ks)"
proof (induction qs arbitrary: S ks)
  case Nil
  then show ?case by simp
next
  case (Cons q qs)
  from Cons.prems have q: "q \<notin> S" "q \<noteq> q0" by auto
  have b: "behind q0 (insert q S) (touch n q ks)"
    by (rule touch_behind [OF Cons.prems(1) q])
  have "behind q0 (insert q S \<union> set qs) (fold (touch n) qs (touch n q ks))"
    using Cons.prems by (intro Cons.IH [OF b]) auto
  then show ?case by simp
qed

lemma search_cached_bounded:
  assumes s: "search_cached order e q = Some (out, e')"
    and b: "length (entries (cache e)) \<le> capacity (cache e)"
  shows "length (entries (cache e')) \<le> capacity (cache e') \<and>
         capacity (cache e') = capacity (cache e)"
proof (cases "map_of (entries (cache e)) q")
  case (Some r)
  then have "(q, r) \<in> set (entries (cache e))" by (rule map_of_SomeD)
  then have "length (filter (\<lambda>x. fst x \<noteq> q) (entries (cache e))) < length (entries (cache e))"
    by (intro length_filter_less [of "(q, r)"]) auto
  with s b show ?thesis by (auto simp: search_cached_hit [OF Some])
next
  case None
  with s b show ?thesis
    by (auto simp: search_cached_miss [OF None] set_cache_def lru_setitem_def lru_contains_def
        split: option.splits sum.splits)
qed

lemma after_queries_keys:
  "cache_consistent order e \<Longrightarrow>
   \<forall>q\<in>set qs. \<exists>l. search order (inverted_index e) q = Some (Inr l) \<Longrightarrow>
   \<exists>e'. after_queries order e qs = Some e' \<and> cache_consistent order e' \<and>
        inverted_index e' = inverted_index e \<and> capacity (cache e') = capacity (cache e) \<and>
        cached_queries e' = fold (touch (capacity (cache e))) qs (cached_queries e)"
proof (induction qs arbitrary: e)
  case Nil
  then show ?case by simp
next
  case (Cons q qs)
  from Cons.prems(2) obtain l where l: "search order (inverted_index e) q = Some (Inr l)"
    by auto
  from search_cached_keys [OF Cons.prems(1) l] obtain r e1 where
    s: "search_cached order e q = Some (Inr r, e1)" "cache_consistent order e1"
    "inverted_index e1 = inverted_index e" "capacity (cache e1) = capacity (cache e)"
    "cached_queries e1 = touch (capacity (cache e)) q (cached_queries e)" by blast
  have "\<forall>q\<in>set qs. \<exists>l. search order (inverted_index e1) q = Some (Inr l)"
    using Cons.prems(2) s(3) by simp
  from Cons.IH [OF s(2) this] show ?case by (simp add: s)
qed

text \<open>
  Eviction when every query returns. The cache never holds more entries than its
  capacity. When N+1 distinct queries all return a list, then after them the first is no
  longer in a cache of capacity N, and searching it again computes a new list, equal to
  the result of the plain search.
\<close>

theorem eviction_of_returning_queries:
  assumes ok: "cache_consistent order e"
    and cap: "0 < capacity (cache e)"
    and bounded: "length (entries (cache e)) \<le> capacity (cache e)"
    and keys: "distinct (cached_queries e)"
    and dq: "distinct (q0 # qs)" and len: "length qs = capacity (cache e)"
    and ret: "\<forall>q\<in>set (q0 # qs). \<exists>l. search order (inverted_index e) q = Some (Inr l)"
  shows "\<exists>e'. after_queries order e (q0 # qs) = Some e' \<and>
           length (entries (cache e')) \<le> capacity (cache e) \<and>
           \<not> has (cache e') q0 \<and>
           (\<exists>e''. search_cached order e' q0 = Some (Inr (length (store e')), e'') \<and>
                  Some (seen e'' (Inr (length (store e')))) = search order (inverted_index e) q0)"
proof -
  let ?n = "capacity (cache e)"
  from after_queries_keys [OF ok ret] obtain e' where
    e': "after_queries order e (q0 # qs) = Some e'" "cache_consistent order e'"
    "inverted_index e' = inverted_index e" "capacity (cache e') = ?n"
    "cached_queries e' = fold (touch ?n) (q0 # qs) (cached_queries e)" by blast
  let ?ks = "touch ?n q0 (cached_queries e)"
  have b0: "behind q0 {} ?ks" by (rule touch_first [OF cap keys])
  have "behind q0 ({} \<union> set qs) (fold (touch ?n) qs ?ks)"
    using dq by (intro fold_touch_behind [OF b0]) auto
  then have b: "behind q0 (set qs) (cached_queries e')" by (simp add: e'(5))
  have "length (cached_queries e) \<le> ?n" using bounded by (simp add: cached_queries_def)
  then have "length (fold (touch ?n) (q0 # qs) (cached_queries e)) \<le> ?n"
    by (rule fold_touch_length)
  then have l: "length (cached_queries e') \<le> ?n" by (simp add: e'(5))
  then have l': "length (cached_queries e') \<le> length qs" by (simp add: len)
  from dq have "distinct qs" by simp
  from behind_evicted [OF b this l'] have gone: "q0 \<notin> set (cached_queries e')" .
  then have nhas: "\<not> has (cache e') q0"
    using map_of_keys [of "entries (cache e')" q0]
    by (simp add: has_def lru_contains_def cached_queries_def)
  from ret obtain l0 where l0: "search order (inverted_index e) q0 = Some (Inr l0)" by auto
  then have "search order (inverted_index e') q0 = Some (Inr l0)" by (simp add: e'(3))
  from search_cached_keys [OF e'(2) this] gone obtain e'' where
    "search_cached order e' q0 = Some (Inr (length (store e')), e'')"
    "seen e'' (Inr (length (store e'))) = Inr l0" by auto
  with e'(1) l nhas l0 show ?thesis by (auto simp: cached_queries_def)
qed

theorem eviction_of_returning_queries_witness:
  "map_option (\<lambda>e. (cached_queries e, store e))
     (after_queries scenario_order (engine_with_cache scenario_index)
        [(latin ''cat''), (latin ''sat''), (latin ''dog'')])
   = Some ([(latin ''dog''), (latin ''sat'')], [[1, 3], [1, 2], [2]])"
proof -
  let ?e = "engine_with_cache scenario_index :: nat engine"
  have h2: "0 < capacity (cache ?e)" "length (entries (cache ?e)) \<le> capacity (cache ?e)"
    "distinct (cached_queries ?e)" "distinct [(latin ''cat''), (latin ''sat''), (latin ''dog'')]"
    "length [(latin ''sat''), (latin ''dog'')] = capacity (cache ?e)"
    by (simp_all add: engine_with_cache_def lru_new_def cached_queries_def)
  have h3: "\<forall>q\<in>set [(latin ''cat''), (latin ''sat''), (latin ''dog'')].
      \<exists>l. search scenario_order (inverted_index ?e) q = Some (Inr l)"
    by (simp add: engine_with_cache_def scenario_searches)
  from eviction_of_returning_queries [OF fresh_consistent h2 h3]
  obtain e' where "after_queries scenario_order ?e [(latin ''cat''), (latin ''sat''), (latin ''dog'')] = Some e'"
    by blast
  then show ?thesis
    by (auto simp: search_cached_def has_def lru_contains_def
      get_def lru_getitem_def engine_with_cache_def lru_new_def scenario_searches
      set_cache_def lru_setitem_def cached_queries_def)
qed

subsection \<open>Eviction and the query without terms\<close>

text \<open>
  C7. The claim is that after N+1 distinct queries the entry of the first is evicted. The
  code does not cache a search that raises, and a query without terms raises IndexError
  (the defect of C2). With the default capacity 2, after the three distinct queries
  \<open>cat\<close>, the empty query and \<open>dog\<close> the cache holds \<open>dog\<close> and \<open>cat\<close>: the entry of the
  first query is still there. After the three queries \<open>cat\<close>, \<open>sat\<close> and \<open>dog\<close>, which all
  return, it is evicted.
\<close>

theorem empty_query_blocks_eviction:
  "map_option (\<lambda>e. (map fst (entries (cache e)), has (cache e) (latin ''cat'')))
     (after_queries scenario_order (engine_with_cache scenario_index) [(latin ''cat''), [], (latin ''dog'')])
   = Some ([(latin ''dog''), (latin ''cat'')], True) \<and>
   map_option (\<lambda>e. (map fst (entries (cache e)), has (cache e) (latin ''cat'')))
     (after_queries scenario_order (engine_with_cache scenario_index) [(latin ''cat''), (latin ''sat''), (latin ''dog'')])
   = Some ([(latin ''dog''), (latin ''sat'')], False)"
  by (simp add: search_cached_def has_def lru_contains_def
      get_def lru_getitem_def engine_with_cache_def lru_new_def scenario_searches
      set_cache_def lru_setitem_def)

end
